theory Spec2Isabelle
  imports Complex_Main "HOL-Library.AList"
begin

section \<open>Text\<close>

text \<open>
  Python strings are modelled as \<^typ>\<open>string\<close>: a list of characters, each an ASCII code
  point. \<open>is_space\<close> is the ASCII part of what \<open>str.strip()\<close>, \<open>str.isspace()\<close> and the
  regular expression class \<open>\s\<close> accept: tab, line feed, vertical tab, form feed, carriage
  return, the four separators 0x1C..0x1F and the blank.
\<close>

definition newline :: char where
  "newline = CHR 0x0A"

definition is_space :: "char \<Rightarrow> bool" where
  "is_space c = (c \<in> set [CHR 0x09, CHR 0x0A, CHR 0x0B, CHR 0x0C, CHR 0x0D,
                            CHR 0x1C, CHR 0x1D, CHR 0x1E, CHR 0x1F, CHR 0x20])"

definition lstrip :: "string \<Rightarrow> string" where
  "lstrip s = dropWhile is_space s"

definition rstrip :: "string \<Rightarrow> string" where
  "rstrip s = rev (dropWhile is_space (rev s))"

text \<open>\<open>s.strip()\<close>\<close>

definition strip :: "string \<Rightarrow> string" where
  "strip s = rstrip (lstrip s)"

text \<open>\<open>s.startswith(p)\<close>\<close>

definition starts_with :: "string \<Rightarrow> string \<Rightarrow> bool" where
  "starts_with p s = (take (length p) s = p)"

text \<open>\<open>s.split("\n")\<close>: never empty, one more element than there are line feeds.\<close>

fun split_nl :: "string \<Rightarrow> string list" where
  "split_nl [] = [[]]"
| "split_nl (c # cs) =
     (if c = newline then [] # split_nl cs
      else (case split_nl cs of [] \<Rightarrow> [[c]] | l # ls \<Rightarrow> (c # l) # ls))"

text \<open>\<open>sep.join(xs)\<close>\<close>

fun join :: "string \<Rightarrow> string list \<Rightarrow> string" where
  "join sep [] = []"
| "join sep [x] = x"
| "join sep (x # y # ys) = x @ sep @ join sep (y # ys)"

text \<open>\<open>d.get(key, default)\<close> on an optional entry.\<close>

fun dget :: "'a option \<Rightarrow> 'a \<Rightarrow> 'a" where
  "dget None d = d"
| "dget (Some v) d = v"

section \<open>Structured document nodes and their serialization\<close>

text \<open>
  A ProseMirror node is a JSON dictionary with the optional entries \<open>type\<close>, \<open>attrs\<close>,
  \<open>content\<close>, \<open>text\<close> and \<open>marks\<close>. An entry of a node list that is not a dictionary is
  \<open>NonDict\<close>: \<open>_process_nodes\<close> tests for it with \<open>isinstance(node, dict)\<close>. The entries
  of \<open>attrs\<close> and of a mark are taken with the types the exporter writes.
\<close>

datatype py_error = AttributeError

datatype mark = Mark (mark_type: "string option") (mark_href: "string option")

datatype attrs = Attrs (attr_level: "int option") (attr_text: "string option")
                       (attr_src: "string option") (attr_alt: "string option")

datatype node = NonDict
  | Node (ntype: "string option") (nattrs: "attrs option") (ncontent: "node list option")
         (ntext: "string option") (nmarks: "mark list option")

text \<open>The body of the loop over \<open>marks\<close> of a text node.\<close>

fun apply_mark :: "string \<Rightarrow> mark \<Rightarrow> string" where
  "apply_mark text (Mark t h) =
     (let mark_type = dget t [] in
      if mark_type = ''strong'' then ''**'' @ text @ ''**''
      else if mark_type = ''em'' then ''*'' @ text @ ''*''
      else if mark_type = ''code'' then ''`'' @ text @ ''`''
      else if mark_type = ''link'' then ''['' @ text @ '']('' @ dget h [] @ '')''
      else text)"

text \<open>Sequencing of results: the first error raised ends the computation.\<close>

fun bind_r :: "py_error + 'a \<Rightarrow> ('a \<Rightarrow> py_error + 'b) \<Rightarrow> py_error + 'b" where
  "bind_r (Inl e) f = Inl e"
| "bind_r (Inr x) f = f x"

text \<open>\<open>node.get("attrs", {}).get(key, default)\<close>\<close>

fun attr_get :: "attrs option \<Rightarrow> (attrs \<Rightarrow> 'a option) \<Rightarrow> 'a \<Rightarrow> 'a" where
  "attr_get None sel d = d"
| "attr_get (Some a) sel d = dget (sel a) d"

text \<open>
  \<open>LegendKeeperParser._process_nodes\<close>: \<open>process_node\<close> is what one iteration of the loop
  appends to \<open>parts\<close>, \<open>process_items\<close> the inner loop over the items of a list node,
  where \<open>item.get\<close> raises AttributeError on an item that is not a dictionary.
\<close>

function process_nodes :: "node list \<Rightarrow> py_error + string"
  and process_node :: "node \<Rightarrow> py_error + string"
  and process_items :: "string \<Rightarrow> node list \<Rightarrow> py_error + string"
where
  "process_nodes [] = Inr []"
| "process_nodes (n # ns) =
     bind_r (process_node n) (\<lambda>s. bind_r (process_nodes ns) (\<lambda>r. Inr (s @ r)))"
| "process_node NonDict = Inr []"
| "process_node (Node ty ats co tx mk) =
     (let node_type = dget ty []; content_nodes = dget co [] in
      if node_type = ''text'' then Inr (foldl apply_mark (dget tx []) (dget mk []))
      else if node_type = ''paragraph'' then
        bind_r (process_nodes content_nodes) (\<lambda>para_text. Inr (para_text @ [newline, newline]))
      else if node_type = ''heading'' then
        bind_r (process_nodes content_nodes) (\<lambda>heading_text.
          Inr (replicate (nat (attr_get ats attr_level 1)) CHR ''#'' @ '' '' @ heading_text @ [newline]))
      else if node_type = ''bulletList'' \<or> node_type = ''orderedList'' then
        process_items (if node_type = ''bulletList'' then ''-'' else ''1.'') content_nodes
      else if node_type = ''listItem'' then process_nodes content_nodes
      else if node_type = ''codeBlock'' then
        bind_r (process_nodes content_nodes) (\<lambda>code_text.
          Inr (''```'' @ [newline] @ code_text @ [newline] @ ''```'' @ [newline]))
      else if node_type = ''blockquote'' then
        bind_r (process_nodes content_nodes) (\<lambda>quote_text. Inr (''> '' @ quote_text @ [newline]))
      else if node_type = ''rule'' then Inr (''---'' @ [newline])
      else if node_type = ''mention'' then Inr (''[['' @ attr_get ats attr_text [] @ '']]'')
      else if node_type = ''image'' then
        Inr (''!['' @ attr_get ats attr_alt [] @ '']('' @ attr_get ats attr_src [] @ '')'' @ [newline])
      else if content_nodes \<noteq> [] then process_nodes content_nodes
      else Inr [])"
| "process_items prefix [] = Inr []"
| "process_items prefix (NonDict # items) = Inl AttributeError"
| "process_items prefix (Node ty ats co tx mk # items) =
     bind_r (process_nodes (dget co [])) (\<lambda>item_text.
       bind_r (process_items prefix items) (\<lambda>r. Inr (prefix @ '' '' @ item_text @ [newline] @ r)))"
  by pat_completeness auto
termination
  apply (relation "measure (\<lambda>x. case x of Inl ns \<Rightarrow> size_list size ns
                                   | Inr (Inl n) \<Rightarrow> size n
                                   | Inr (Inr (p, ns)) \<Rightarrow> size_list size ns)")
  apply simp_all
  apply (case_tac co; simp)+
  done

section \<open>Markdown to nodes\<close>

definition text_node :: "string \<Rightarrow> node" where
  "text_node t = Node (Some ''text'') None None (Some t) None"

definition paragraph_node :: "string \<Rightarrow> node" where
  "paragraph_node t = Node (Some ''paragraph'') None (Some [text_node t]) None None"

definition heading_node :: "int \<Rightarrow> string \<Rightarrow> node" where
  "heading_node lv t =
     Node (Some ''heading'') (Some (Attrs (Some lv) None None None)) (Some [text_node t]) None None"

definition rule_node :: node where
  "rule_node = Node (Some ''rule'') None None None None"

definition bullet_node :: "string \<Rightarrow> node" where
  "bullet_node t =
     Node (Some ''bulletList'') None
       (Some [Node (Some ''listItem'') None (Some [paragraph_node t]) None None]) None None"

definition blockquote_node :: "string \<Rightarrow> node" where
  "blockquote_node t = Node (Some ''blockquote'') None (Some [paragraph_node t]) None None"

text \<open>\<open>stripped in ["---", "***", "___"]\<close>\<close>

definition is_rule :: "string \<Rightarrow> bool" where
  "is_rule s = (s \<in> set [''---'', ''***'', ''___''])"

text \<open>\<open>stripped.startswith(("-", "*", "+"))\<close>\<close>

definition starts_bullet :: "string \<Rightarrow> bool" where
  "starts_bullet s = (starts_with ''-'' s \<or> starts_with ''*'' s \<or> starts_with ''+'' s)"

text \<open>\<open>LegendKeeperExporter._is_special_line\<close>\<close>

definition is_special_line :: "string \<Rightarrow> bool" where
  "is_special_line line =
     (let stripped = strip line in
      starts_with ''#'' stripped \<or> starts_bullet stripped \<or> starts_with ''>'' stripped
      \<or> starts_with ''!['' stripped \<or> is_rule stripped)"

text \<open>
  \<open>re.match(r"!\[(.*?)\]\((.*?)\)", s)\<close>. Both groups are lazy: \<open>match_src\<close> reads the second
  group up to the first closing parenthesis, \<open>match_alt\<close> tries the rest of the pattern after
  each length of the first group in turn, shortest first. The dot matches no line feed.
\<close>

fun match_src :: "string \<Rightarrow> string option" where
  "match_src [] = None"
| "match_src (c # cs) =
     (if c = CHR '')'' then Some []
      else if c = newline then None
      else map_option ((#) c) (match_src cs))"

fun match_alt :: "string \<Rightarrow> (string \<times> string) option" where
  "match_alt [] = None"
| "match_alt (c # cs) =
     (case (if starts_with '']('' (c # cs) then match_src (drop 2 (c # cs)) else None) of
        Some s \<Rightarrow> Some ([], s)
      | None \<Rightarrow>
          if c = newline then None
          else map_option (\<lambda>(a, s). (c # a, s)) (match_alt cs))"

definition image_match :: "string \<Rightarrow> (string \<times> string) option" where
  "image_match s = (if starts_with ''!['' s then match_alt (drop 2 s) else None)"

text \<open>The test of the inner loop that gathers the lines of one paragraph.\<close>

definition continues :: "string \<Rightarrow> bool" where
  "continues l = (strip l \<noteq> [] \<and> \<not> is_special_line l)"

text \<open>\<open>line.lstrip("#")\<close>\<close>

definition lstrip_hash :: "string \<Rightarrow> string" where
  "lstrip_hash s = dropWhile (\<lambda>c. c = CHR ''#'') s"

text \<open>
  The loop of \<open>LegendKeeperExporter._markdown_to_prosemirror\<close> over \<open>lines[i:]\<close>: every
  branch moves past the line it read, the paragraph branch past all the lines it gathered.
\<close>

function parse_lines :: "string list \<Rightarrow> node list" where
  "parse_lines [] = []"
| "parse_lines (line # rest) =
     (if strip line = [] then parse_lines rest
      else if starts_with ''#'' line then
        (let level = int (length line - length (lstrip_hash line));
             text = strip (lstrip_hash line)
         in heading_node (min level 6) text # parse_lines rest)
      else if is_rule (strip line) then rule_node # parse_lines rest
      else if starts_bullet (strip line) then
        bullet_node (strip (drop 1 (strip line))) # parse_lines rest
      else if starts_with ''>'' (strip line) then
        blockquote_node (strip (drop 1 (strip line))) # parse_lines rest
      else if starts_with ''!['' (strip line) then
        (case image_match (strip line) of
           Some (alt, src) \<Rightarrow>
             paragraph_node (''!['' @ alt @ '']('' @ src @ '')'') # parse_lines rest
         | None \<Rightarrow> parse_lines rest)
      else
        paragraph_node (join '' '' (line # takeWhile continues rest))
          # parse_lines (dropWhile continues rest))"
  by pat_completeness auto
termination
  by (relation "measure length") (auto simp: le_imp_less_Suc length_dropWhile_le)

definition markdown_to_prosemirror :: "string \<Rightarrow> node list" where
  "markdown_to_prosemirror content = parse_lines (split_nl content)"

text \<open>
  A block that is read back: its serialization is one line and some line feeds, and the
  parser reads that line, followed by as many blank lines, as the same node again.
\<close>

definition reads_back :: "node \<Rightarrow> bool" where
  "reads_back n =
     (\<exists>l k. newline \<notin> set l
        \<and> process_node n = Inr (l @ newline # replicate k newline)
        \<and> (\<forall>rest. parse_lines (l # replicate k [] @ rest) = n # parse_lines rest))"


text \<open>The kinds of node that \<open>_process_nodes\<close> has a branch for.\<close>

definition recognized_types :: "string list" where
  "recognized_types = [''text'', ''paragraph'', ''heading'', ''bulletList'', ''orderedList'',
     ''listItem'', ''codeBlock'', ''blockquote'', ''rule'', ''mention'', ''image'']"

section \<open>Markdown documents as the specification describes them\<close>

text \<open>
  The blocks a Markdown text is composed of, by kind and textual content: a heading with its
  level, a single-line bullet, a blockquote line, a horizontal rule, a plain paragraph.
\<close>

datatype block = Heading nat string | Bullet string | Quote string | Rule | Paragraph string





text \<open>White space inside a line.\<close>

definition blank :: "string \<Rightarrow> bool" where
  "blank s = list_all (\<lambda>c. is_space c \<and> c \<noteq> newline) s"

















section \<open>Resources\<close>

text \<open>The records of a LegendKeeper JSON export, as \<open>_parse_resource\<close> reads them.\<close>

record lk_banner =
  banner_enabled :: bool
  banner_url_entry :: "string option"
  banner_yPosition :: "real option"

datatype lk_property = PropNonDict | Prop (prop_name: "string option") (prop_value: "string option")

record lk_document =
  doc_name :: "string option"
  doc_content :: "node list option"

record lk_record =
  rec_id :: "string option"
  rec_name :: "string option"
  rec_parentId :: "string option"
  rec_iconGlyph :: "string option"
  rec_iconColor :: "string option"
  rec_iconShape :: "string option"
  rec_isHidden :: "bool option"
  rec_isLocked :: "bool option"
  rec_banner :: "lk_banner option"
  rec_tags :: "string list option"
  rec_aliases :: "string list option"
  rec_properties :: "lk_property list option"
  rec_documents :: "lk_document list option"

text \<open>
  Resources are objects: a parent's \<open>children\<close> list holds references to them, and one
  Resource may be referenced from several lists. A reference is an address, and the heap
  gives the Resource stored at each address.
\<close>

type_synonym addr = nat

record resource =
  res_id :: string
  name :: string
  parent_id :: "string option"
  content :: string
  properties :: "(string \<times> string) list"
  tags :: "string list"
  aliases :: "string list"
  icon_glyph :: "string option"
  icon_color :: "string option"
  icon_shape :: "string option"
  banner_url :: "string option"
  banner_y_position :: real
  is_hidden :: bool
  is_locked :: bool
  children :: "addr list"
  images :: "string list"
  raw_data :: "lk_record option"

type_synonym heap = "addr \<Rightarrow> resource"

text \<open>\<open>Resource(id=i, name=n, parent_id=p, content=c)\<close> with the defaults of the dataclass.\<close>

definition Resource :: "string \<Rightarrow> string \<Rightarrow> string option \<Rightarrow> string \<Rightarrow> resource" where
  "Resource i n p c =
     \<lparr>res_id = i, name = n, parent_id = p, content = c, properties = [], tags = [],
      aliases = [], icon_glyph = None, icon_color = None, icon_shape = None,
      banner_url = None, banner_y_position = 50, is_hidden = False, is_locked = False,
      children = [], images = [], raw_data = None\<rparr>"

text \<open>
  \<open>Resource.add_child\<close>, called on the Resource at \<open>self\<close> with the one at \<open>child\<close>: the
  append comes first, the assignment to \<open>child.parent_id\<close> second.
\<close>

definition add_child :: "heap \<Rightarrow> addr \<Rightarrow> addr \<Rightarrow> heap" where
  "add_child h self child =
     (let h1 = h(self := (h self)\<lparr>children := children (h self) @ [child]\<rparr>)
      in h1(child := (h1 child)\<lparr>parent_id := Some (res_id (h1 self))\<rparr>))"

record database_row =
  row_name :: string
  row_properties :: "(string \<times> string) list"
  row_raw_data :: "(string \<times> string) list"

record conversion_data =
  resources :: "addr list"
  databases :: "(string \<times> database_row list) list"
  metadata_version :: "int option"
  metadata_exportId :: "string option"
  metadata_exportedAt :: "string option"

text \<open>\<open>ConversionData()\<close>\<close>

definition ConversionData :: conversion_data where
  "ConversionData =
     \<lparr>resources = [], databases = [], metadata_version = None, metadata_exportId = None,
      metadata_exportedAt = None\<rparr>"

definition add_resource :: "conversion_data \<Rightarrow> addr \<Rightarrow> conversion_data" where
  "add_resource data r = data\<lparr>resources := resources data @ [r]\<rparr>"

text \<open>
  \<open>ConversionData.get_all_resources\<close>. The first argument bounds the depth of the
  recursion of \<open>collect\<close>; \<open>None\<close> is the recursion running deeper than that, as it does
  without end on a heap where a Resource is among its own descendants.
\<close>

fun collect :: "nat \<Rightarrow> heap \<Rightarrow> addr list \<Rightarrow> addr list option" where
  "collect 0 h rs = None"
| "collect (Suc n) h [] = Some []"
| "collect (Suc n) h (r # rs) =
     (case collect n h (children (h r)) of
        None \<Rightarrow> None
      | Some sub \<Rightarrow>
          (case collect (Suc n) h rs of
             None \<Rightarrow> None
           | Some others \<Rightarrow> Some (r # sub @ others)))"

definition get_all_resources :: "nat \<Rightarrow> heap \<Rightarrow> conversion_data \<Rightarrow> addr list option" where
  "get_all_resources depth h data = collect depth h (resources data)"

section \<open>Reading a LegendKeeper JSON export\<close>

text \<open>\<open>LegendKeeperParser._extract_text_from_prosemirror\<close>, on the \<open>content\<close> entry of a document.\<close>

definition extract_text_from_prosemirror :: "node list option \<Rightarrow> py_error + string" where
  "extract_text_from_prosemirror c = process_nodes (dget c [])"

text \<open>\<open>LegendKeeperParser._extract_content_from_documents\<close>: the loop, then the join.\<close>

fun content_parts :: "lk_document list \<Rightarrow> py_error + string list" where
  "content_parts [] = Inr []"
| "content_parts (doc # docs) =
     (let dn = dget (doc_name doc) [];
          heading = (if dn \<noteq> [] \<and> dn \<noteq> ''Main'' then [''# '' @ dn @ [newline]] else [])
      in bind_r (extract_text_from_prosemirror (doc_content doc)) (\<lambda>text.
           bind_r (content_parts docs) (\<lambda>others.
             Inr (heading @ (if text \<noteq> [] then [text] else []) @ others))))"

definition extract_content_from_documents :: "lk_document list \<Rightarrow> py_error + string" where
  "extract_content_from_documents documents =
     bind_r (content_parts documents) (\<lambda>parts. Inr (join [newline, newline] parts))"

text \<open>The loop over \<open>properties\<close> in \<open>_parse_resource\<close>.\<close>

fun set_properties :: "lk_property list \<Rightarrow> (string \<times> string) list \<Rightarrow> (string \<times> string) list" where
  "set_properties [] ps = ps"
| "set_properties (PropNonDict # rest) ps = set_properties rest ps"
| "set_properties (Prop n v # rest) ps =
     (if dget n [] \<noteq> [] then set_properties rest (AList.update (dget n []) (dget v []) ps)
      else set_properties rest ps)"

text \<open>\<open>LegendKeeperParser._parse_resource\<close>\<close>

definition parse_resource :: "lk_record \<Rightarrow> py_error + resource" where
  "parse_resource res_data =
     (let r0 = Resource (dget (rec_id res_data) []) (dget (rec_name res_data) [])
                 (rec_parentId res_data) [];
          r1 = r0\<lparr>icon_glyph := rec_iconGlyph res_data, icon_color := rec_iconColor res_data,
                 icon_shape := rec_iconShape res_data,
                 is_hidden := dget (rec_isHidden res_data) False,
                 is_locked := dget (rec_isLocked res_data) False\<rparr>;
          r2 = (case rec_banner res_data of
                  None \<Rightarrow> r1
                | Some banner \<Rightarrow>
                    if banner_enabled banner
                    then r1\<lparr>banner_url := Some (dget (banner_url_entry banner) []),
                            banner_y_position := dget (banner_yPosition banner) 50\<rparr>
                    else r1);
          r3 = r2\<lparr>tags := dget (rec_tags res_data) [], aliases := dget (rec_aliases res_data) []\<rparr>;
          r4 = r3\<lparr>properties := set_properties (dget (rec_properties res_data) []) (properties r3)\<rparr>
      in bind_r (extract_content_from_documents (dget (rec_documents res_data) [])) (\<lambda>c.
           Inr (r4\<lparr>content := c, raw_data := Some res_data\<rparr>)))"

record lk_export =
  exp_version :: "int option"
  exp_exportId :: "string option"
  exp_exportedAt :: "string option"
  exp_resources :: "lk_record list option"

text \<open>
  The first pass of \<open>parse_json\<close>. The dictionary \<open>resources_by_id\<close> is an association list
  in insertion order, where storing under a key that is present replaces the value in
  place, as a Python dict does. The new Resource objects take the addresses \<open>n\<close>,
  \<open>n + 1\<close>, ... of the heap.
\<close>

fun first_pass ::
  "lk_record list \<Rightarrow> heap \<Rightarrow> addr \<Rightarrow> (string \<times> addr) list \<Rightarrow> py_error + heap \<times> (string \<times> addr) list"
where
  "first_pass [] h n resources_by_id = Inr (h, resources_by_id)"
| "first_pass (res_data # rest) h n resources_by_id =
     bind_r (parse_resource res_data) (\<lambda>resource.
       first_pass rest (h(n := resource)) (Suc n)
         (AList.update (res_id resource) n resources_by_id))"

text \<open>
  \<open>resource.parent_id and resource.parent_id in resources_by_id\<close>, giving the parent
  \<open>resources_by_id[resource.parent_id]\<close> when the test holds.
\<close>

definition resolve_parent :: "(string \<times> addr) list \<Rightarrow> string option \<Rightarrow> addr option" where
  "resolve_parent resources_by_id p =
     (case p of None \<Rightarrow> None | Some pid \<Rightarrow> if pid \<noteq> [] then map_of resources_by_id pid else None)"

text \<open>The second pass of \<open>parse_json\<close>, over \<open>resources_by_id.values()\<close>.\<close>

fun second_pass ::
  "(string \<times> addr) list \<Rightarrow> addr list \<Rightarrow> heap \<Rightarrow> conversion_data \<Rightarrow> heap \<times> conversion_data"
where
  "second_pass resources_by_id [] h data = (h, data)"
| "second_pass resources_by_id (r # rs) h data =
     (case resolve_parent resources_by_id (parent_id (h r)) of
        Some parent \<Rightarrow> second_pass resources_by_id rs (add_child h parent r) data
      | None \<Rightarrow> second_pass resources_by_id rs h (add_resource data r))"

text \<open>
  \<open>LegendKeeperParser.parse_json\<close> on the loaded JSON document, from the heap \<open>h\<close> on; the
  new Resources are stored from address 0 on.
\<close>

definition parse_json :: "lk_export \<Rightarrow> heap \<Rightarrow> py_error + heap \<times> conversion_data" where
  "parse_json lk_data h =
     (let data = ConversionData\<lparr>metadata_version := Some (dget (exp_version lk_data) 1),
                   metadata_exportId := Some (dget (exp_exportId lk_data) []),
                   metadata_exportedAt := Some (dget (exp_exportedAt lk_data) [])\<rparr>;
          resources_data = dget (exp_resources lk_data) []
      in bind_r (first_pass resources_data h 0 []) (\<lambda>(h1, resources_by_id).
           Inr (second_pass resources_by_id (map snd resources_by_id) h1 data)))"

text \<open>
  Words for the statements about \<open>parse_json\<close>. \<open>record_id\<close> is the id \<open>_parse_resource\<close>
  gives the Resource of a record; \<open>last_with_id recs k\<close> is the position of the last
  record with the id \<open>k\<close>; \<open>record_parent recs r\<close> is the position of the record the
  parent reference of \<open>r\<close> resolves to, if it resolves; \<open>records_parse recs\<close> says that
  no record has a document body on which \<open>_process_nodes\<close> raises.
\<close>

definition record_id :: "lk_record \<Rightarrow> string" where
  "record_id r = dget (rec_id r) []"

definition last_with_id :: "lk_record list \<Rightarrow> string \<Rightarrow> nat option" where
  "last_with_id recs k =
     (case filter (\<lambda>i. record_id (recs ! i) = k) [0..<length recs] of
        [] \<Rightarrow> None
      | i # js \<Rightarrow> Some (last (i # js)))"

definition record_parent :: "lk_record list \<Rightarrow> lk_record \<Rightarrow> nat option" where
  "record_parent recs r =
     (case rec_parentId r of
        None \<Rightarrow> None
      | Some pid \<Rightarrow> if pid \<noteq> [] then last_with_id recs pid else None)"

definition records_parse :: "lk_record list \<Rightarrow> bool" where
  "records_parse recs = (\<forall>r\<in>set recs. \<not> isl (parse_resource r))"

text \<open>
  The shape of a forest of Resources, apart from the heap that holds them: a tree of
  addresses. \<open>shape_of h t\<close> says that the \<open>children\<close> lists of the heap are the ones of
  the tree \<open>t\<close>; \<open>is_forest h roots ts\<close> that the root list and the heap have the shape
  of the trees \<open>ts\<close> and that no Resource occurs twice in them (no shared ownership, no
  cycle).
\<close>

datatype rtree = RNode (rt_addr: addr) (rt_subs: "rtree list")

fun preorder :: "rtree \<Rightarrow> addr list" where
  "preorder (RNode a ts) = a # concat (map preorder ts)"

fun shape_of :: "heap \<Rightarrow> rtree \<Rightarrow> bool" where
  "shape_of h (RNode a ts) = (children (h a) = map rt_addr ts \<and> (\<forall>t\<in>set ts. shape_of h t))"

definition is_forest :: "heap \<Rightarrow> addr list \<Rightarrow> rtree list \<Rightarrow> bool" where
  "is_forest h roots ts =
     (roots = map rt_addr ts \<and> (\<forall>t\<in>set ts. shape_of h t)
      \<and> distinct (concat (map preorder ts)))"

fun height :: "rtree \<Rightarrow> nat" where
  "height (RNode a ts) = Suc (foldr max (map height ts) 0)"

fun all_subtrees :: "rtree \<Rightarrow> rtree list" where
  "all_subtrees (RNode a ts) = RNode a ts # concat (map all_subtrees ts)"

text \<open>
  The parent-to-child relation of a heap, and the Resources of a forest: the roots and
  all their descendants.
\<close>

definition child_rel :: "heap \<Rightarrow> (addr \<times> addr) set" where
  "child_rel h = {(p, c). c \<in> set (children (h p))}"

definition all_resources :: "heap \<Rightarrow> addr list \<Rightarrow> addr set" where
  "all_resources h roots = {b. \<exists>r\<in>set roots. (r, b) \<in> (child_rel h)\<^sup>*}"

text \<open>A heap with three Resources that are not attached to anything, for the examples.\<close>

definition blank_heap :: heap where
  "blank_heap = (\<lambda>a. Resource [] [] None [])"

definition family_heap :: heap where
  "family_heap = blank_heap
     (0 := Resource ''p1'' ''First parent'' None [],
      1 := Resource ''p2'' ''Second parent'' None [],
      2 := Resource ''c'' ''Child'' None [])"

section \<open>Reading a Notion export\<close>

text \<open>The character class \<open>[a-f0-9]\<close>.\<close>

definition is_hex :: "char \<Rightarrow> bool" where
  "is_hex c = (c \<in> set ''0123456789abcdef'')"

text \<open>
  The anchor \<open>$\<close>, tested on what is left of the string: it holds at the end and before
  a line feed that ends the string.
\<close>

definition at_end :: "string \<Rightarrow> bool" where
  "at_end s = (s = [] \<or> s = [newline])"

text \<open>\<open>[a-f0-9]{32}$\<close> matched at the start of \<open>s\<close>.\<close>

definition token_at :: "string \<Rightarrow> bool" where
  "token_at s =
     (length (take 32 s) = 32 \<and> (\<forall>c\<in>set (take 32 s). is_hex c) \<and> at_end (drop 32 s))"

text \<open>
  \<open>\s+[a-f0-9]{32}$\<close> matched at the start of \<open>s\<close>. The greedy \<open>\s+\<close> takes the whole run
  of white space; giving part of it back cannot help, as the token then had to start
  with a white space character.
\<close>

definition tail_at :: "string \<Rightarrow> bool" where
  "tail_at s = (takeWhile is_space s \<noteq> [] \<and> token_at (dropWhile is_space s))"

text \<open>
  \<open>re.match(r"^(.+?)\s+[a-f0-9]{32}$", filename)\<close>: the lazy group takes one character
  more (no line feed) until the rest of the pattern matches what follows; \<open>g\<close> is the
  group so far. The result is group 1.
\<close>

fun lazy_group :: "string \<Rightarrow> string \<Rightarrow> string option" where
  "lazy_group g [] = None"
| "lazy_group g (c # cs) =
     (if c = newline then None
      else if tail_at cs then Some (g @ [c])
      else lazy_group (g @ [c]) cs)"

text \<open>\<open>NotionParser._extract_name_from_filename\<close>\<close>

definition extract_name_from_filename :: "string \<Rightarrow> string" where
  "extract_name_from_filename filename =
     (case lazy_group [] filename of Some g \<Rightarrow> strip g | None \<Rightarrow> filename)"

text \<open>\<open>re.search(r"[a-f0-9]{32}$", filename)\<close>: the leftmost match; the result is group 0.\<close>

fun search_token :: "string \<Rightarrow> string option" where
  "search_token [] = None"
| "search_token (c # cs) =
     (if token_at (c # cs) then Some (take 32 (c # cs)) else search_token cs)"

text \<open>\<open>str.lower()\<close> and \<open>str.replace(" ", "_")\<close>, on ASCII text.\<close>

definition lower_char :: "char \<Rightarrow> char" where
  "lower_char c =
     (case map_of (zip ''ABCDEFGHIJKLMNOPQRSTUVWXYZ'' ''abcdefghijklmnopqrstuvwxyz'') c of
        Some l \<Rightarrow> l
      | None \<Rightarrow> c)"

definition synthesized_id :: "string \<Rightarrow> string" where
  "synthesized_id filename =
     map (\<lambda>c. if c = CHR '' '' then CHR ''_'' else c) (map lower_char filename)"

text \<open>\<open>NotionParser._extract_id_from_filename\<close>\<close>

definition extract_id_from_filename :: "string \<Rightarrow> string" where
  "extract_id_from_filename filename =
     (case search_token filename of Some token \<Rightarrow> token | None \<Rightarrow> synthesized_id filename)"

text \<open>The character classes \<open>[A-Z]\<close> and \<open>[a-zA-Z\s]\<close>.\<close>

definition is_upper :: "char \<Rightarrow> bool" where
  "is_upper c = (c \<in> set ''ABCDEFGHIJKLMNOPQRSTUVWXYZ'')"

definition key_char :: "char \<Rightarrow> bool" where
  "key_char c = (is_upper c \<or> c \<in> set ''abcdefghijklmnopqrstuvwxyz'' \<or> is_space c)"

text \<open>\<open>(.+)$\<close> matched at the start of \<open>u\<close>: the dot matches no line feed.\<close>

definition dot_plus_end :: "string \<Rightarrow> string option" where
  "dot_plus_end u =
     (let b = takeWhile (\<lambda>c. c \<noteq> newline) u
      in if b \<noteq> [] \<and> at_end (drop (length b) u) then Some b else None)"

text \<open>
  \<open>\s+(.+)$\<close> matched at the start of \<open>ds\<close>, with \<open>k\<close> characters given to \<open>\s+\<close>: the
  greedy \<open>\s+\<close> gives back one character at a time until the rest matches.
\<close>

fun space_then_value :: "nat \<Rightarrow> string \<Rightarrow> string option" where
  "space_then_value 0 ds = None"
| "space_then_value (Suc k) ds =
     (case dot_plus_end (drop (Suc k) ds) of
        Some v \<Rightarrow> Some v
      | None \<Rightarrow> space_then_value k ds)"

text \<open>
  \<open>re.match(r"^([A-Z][a-zA-Z\s]+):\s+(.+)$", line)\<close>: groups 1 and 2. The greedy first
  group takes the whole run of key characters, and must be followed by the colon.
\<close>

definition match_property :: "string \<Rightarrow> (string \<times> string) option" where
  "match_property line =
     (case line of
        [] \<Rightarrow> None
      | c # cs \<Rightarrow>
          if \<not> is_upper c \<or> takeWhile key_char cs = [] then None
          else (case dropWhile key_char cs of
                  [] \<Rightarrow> None
                | d # ds \<Rightarrow>
                    if d \<noteq> CHR '':'' then None
                    else map_option (\<lambda>v. (c # takeWhile key_char cs, v))
                           (space_then_value (length (takeWhile is_space ds)) ds)))"

text \<open>
  The loop of \<open>NotionParser._extract_properties\<close>, from the index \<open>i\<close> on; the result is
  \<open>property_end_idx\<close> and \<open>resource.properties\<close> after the loop.
\<close>

function scan_properties ::
  "string list \<Rightarrow> nat \<Rightarrow> nat \<Rightarrow> nat \<Rightarrow> (string \<times> string) list \<Rightarrow> nat \<times> (string \<times> string) list"
where
  "scan_properties lines content_start_idx i property_end_idx props =
     (if i < min (content_start_idx + 20) (length lines) then
        (let line = strip (lines ! i) in
         if line = [] then
           (if property_end_idx > content_start_idx then (i + 1, props)
            else scan_properties lines content_start_idx (i + 1) property_end_idx props)
         else
           (case match_property line of
              Some (key, value) \<Rightarrow>
                scan_properties lines content_start_idx (i + 1) (i + 1)
                  (AList.update (strip key) (strip value) props)
            | None \<Rightarrow>
                if property_end_idx > content_start_idx then (property_end_idx, props)
                else scan_properties lines content_start_idx (i + 1) property_end_idx props))
      else (property_end_idx, props))"
  by pat_completeness auto
termination
  by (relation "measure (\<lambda>(lines, s, i, p, props). min (s + 20) (length lines) - i)") auto

text \<open>\<open>NotionParser._extract_properties\<close>\<close>

definition extract_properties :: "resource \<Rightarrow> resource" where
  "extract_properties resource =
     (let lines = split_nl (content resource);
          start0 = (if lines \<noteq> [] \<and> starts_with ''# '' (strip (lines ! 0)) then 1 else 0);
          content_start_idx =
            (if start0 < length lines \<and> strip (lines ! start0) = [] then start0 + 1 else start0);
          (property_end_idx, props) =
            scan_properties lines content_start_idx content_start_idx content_start_idx
              (properties resource)
      in resource\<lparr>properties := props,
                  content := strip (join [newline] (drop property_end_idx lines))\<rparr>)"

text \<open>
  Words for the statements about \<open>_extract_properties\<close>: what capturing the line \<open>l\<close> does
  to the properties, the value of \<open>content_start_idx\<close> before the loop, and the lines
  that follow the title without the blank line that may come first.
\<close>

definition capture :: "(string \<times> string) list \<Rightarrow> string \<Rightarrow> (string \<times> string) list" where
  "capture props l =
     (case match_property (strip l) of
        Some (key, value) \<Rightarrow> AList.update (strip key) (strip value) props
      | None \<Rightarrow> props)"

definition content_start :: "string list \<Rightarrow> nat" where
  "content_start lines =
     (let start0 = (if lines \<noteq> [] \<and> starts_with ''# '' (strip (lines ! 0)) then 1 else 0)
      in if start0 < length lines \<and> strip (lines ! start0) = [] then start0 + 1 else start0)"

definition after_title :: "string list \<Rightarrow> string list" where
  "after_title rest = (case rest of [] \<Rightarrow> [] | l # ls \<Rightarrow> if strip l = [] then ls else l # ls)"

text \<open>
  Words for the statements about file names: \<open>ends_with_token s\<close> says that the last 32
  characters of \<open>s\<close> are a token, \<open>token_before_end s\<close> that \<open>s\<close> ends with a token or
  with a token and one line feed, \<open>has_id_suffix s\<close> that \<open>s\<close> ends with a token that
  has a white space character before it.
\<close>

definition ends_with_token :: "string \<Rightarrow> bool" where
  "ends_with_token s = (32 \<le> length s \<and> (\<forall>c\<in>set (drop (length s - 32) s). is_hex c))"

definition token_before_end :: "string \<Rightarrow> bool" where
  "token_before_end s =
     (ends_with_token s \<or> (s \<noteq> [] \<and> last s = newline \<and> ends_with_token (butlast s)))"

definition has_id_suffix :: "string \<Rightarrow> bool" where
  "has_id_suffix s = (ends_with_token s \<and> 33 \<le> length s \<and> is_space (s ! (length s - 33)))"

text \<open>Page bodies and file names for the examples.\<close>

definition titled_body :: string where
  "titled_body = ''# Title'' @ [newline, newline] @ ''Owner: Alice'' @ [newline]
     @ ''Status: Active'' @ [newline, newline] @ ''Body text''"

definition late_title_body :: string where
  "late_title_body = [newline] @ ''# Title'' @ [newline, newline] @ ''Body text''"

definition intro_body :: string where
  "intro_body = ''# Title'' @ [newline, newline] @ ''Intro line'' @ [newline]
     @ ''Owner: Alice'' @ [newline, newline] @ ''Body text''"

definition page :: "string \<Rightarrow> resource" where
  "page body = Resource ''0a1b'' ''Title'' None body"

definition hex_token :: string where
  "hex_token = ''0123456789abcdef0123456789abcdef''"

text \<open>What a result of \<open>parse_json\<close> holds: the root list, and the children of a Resource.\<close>

definition result_roots :: "py_error + heap \<times> conversion_data \<Rightarrow> addr list option" where
  "result_roots x = (case x of Inl e \<Rightarrow> None | Inr (h, data) \<Rightarrow> Some (resources data))"

definition result_children :: "py_error + heap \<times> conversion_data \<Rightarrow> addr \<Rightarrow> addr list option" where
  "result_children x p = (case x of Inl e \<Rightarrow> None | Inr (h, data) \<Rightarrow> Some (children (h p)))"

text \<open>Exports for the examples: a record with an id, a name and a parent reference only.\<close>

definition mk_record :: "string \<Rightarrow> string \<Rightarrow> string option \<Rightarrow> lk_record" where
  "mk_record i n p =
     \<lparr>rec_id = Some i, rec_name = Some n, rec_parentId = p, rec_iconGlyph = None,
      rec_iconColor = None, rec_iconShape = None, rec_isHidden = None, rec_isLocked = None,
      rec_banner = None, rec_tags = None, rec_aliases = None, rec_properties = None,
      rec_documents = None\<rparr>"

definition mk_export :: "lk_record list \<Rightarrow> lk_export" where
  "mk_export recs =
     \<lparr>exp_version = None, exp_exportId = None, exp_exportedAt = None, exp_resources = Some recs\<rparr>"

definition twin_records :: "lk_record list" where
  "twin_records = [mk_record ''x'' ''First'' None, mk_record ''x'' ''Second'' None]"

definition small_records :: "lk_record list" where
  "small_records =
     [mk_record ''a'' ''A'' None, mk_record ''b'' ''B'' (Some ''a''),
      mk_record ''c'' ''C'' (Some ''nowhere'')]"

text \<open>
  A heap holding one tree: the Resource at 0 has the children at 1 and 2, the one at 1
  has the child at 3.
\<close>

definition tree_heap :: heap where
  "tree_heap = blank_heap
     (0 := (Resource ''r'' ''Root'' None [])\<lparr>children := [1, 2]\<rparr>,
      1 := (Resource ''a'' ''A'' (Some ''r'') [])\<lparr>children := [3]\<rparr>,
      2 := Resource ''b'' ''B'' (Some ''r'') [],
      3 := Resource ''c'' ''C'' (Some ''a'') [])"

definition tree_data :: conversion_data where
  "tree_data = add_resource ConversionData 0"

definition tree_shape :: "rtree list" where
  "tree_shape = [RNode 0 [RNode 1 [RNode 3 []], RNode 2 []]]"

section \<open>Attaching a child\<close>

lemma add_child_other: "a \<noteq> p \<Longrightarrow> a \<noteq> c \<Longrightarrow> add_child h p c a = h a"
  by (simp add: add_child_def Let_def)

lemma children_add_child:
  "children (add_child h p c a) = (if a = p then children (h p) @ [c] else children (h a))"
  by (simp add: add_child_def Let_def)

lemma res_id_add_child: "res_id (add_child h p c a) = res_id (h a)"
  by (simp add: add_child_def Let_def)

lemma parent_id_add_child:
  "parent_id (add_child h p c a) = (if a = c then Some (res_id (h p)) else parent_id (h a))"
  by (simp add: add_child_def Let_def)

text \<open>
  C3, as stated, fails: attaching a Resource to a parent that already has it as a child
  leaves it twice in the parent's list. Here the Resource at address 2 is attached to
  the one at address 0 two times.
\<close>

theorem add_child_twice_counterexample:
  "count_list (children (add_child (add_child family_heap 0 2) 0 2 0)) 2 = 2"
  by (simp add: add_child_def family_heap_def blank_heap_def Resource_def Let_def)

text \<open>
  C3, amended: after \<open>parent.add_child(child)\<close> the child's \<open>parent_id\<close> is the parent's
  \<open>id\<close>, and the child occurs in the parent's \<open>children\<close> once more than it did before,
  so exactly once when it was not among them.
\<close>

theorem add_child_sets_parent_and_appends:
  "parent_id (add_child h p c c) = Some (res_id (add_child h p c p))
   \<and> count_list (children (add_child h p c p)) c = count_list (children (h p)) c + 1
   \<and> (c \<notin> set (children (h p)) \<longrightarrow> count_list (children (add_child h p c p)) c = 1)"
  by (simp add: parent_id_add_child res_id_add_child children_add_child count_list_0_iff)

theorem add_child_sets_parent_and_appends_witness:
  "2 \<notin> set (children (family_heap 0))
   \<and> parent_id (add_child family_heap 0 2 2) = Some ''p1''
   \<and> count_list (children (add_child family_heap 0 2 0)) 2 = 1"
  using add_child_sets_parent_and_appends [of family_heap 0 2]
  by (simp add: res_id_add_child family_heap_def blank_heap_def Resource_def)

text \<open>
  C5: when \<open>c\<close> is among the children of \<open>p1\<close> and is then attached to another parent
  \<open>p2\<close>, its \<open>parent_id\<close> becomes the \<open>id\<close> of \<open>p2\<close>, it is still among the children of
  \<open>p1\<close>, and that list is the same as before. Nothing else of \<open>p1\<close> changes: the one
  field the call writes is the \<open>parent_id\<close> of \<open>c\<close>, so \<open>p1\<close> keeps every field but
  that one, and keeps that one too unless \<open>p1\<close> is \<open>c\<close> itself (a Resource that was
  attached to itself).
\<close>

theorem reattach_keeps_old_parent:
  assumes "c \<in> set (children (h p1))" and "p2 \<noteq> p1"
  shows "parent_id (add_child h p2 c c) = Some (res_id (add_child h p2 c p2))
         \<and> c \<in> set (children (add_child h p2 c p1))
         \<and> children (add_child h p2 c p1) = children (h p1)
         \<and> add_child h p2 c p1 = (h p1)\<lparr>parent_id := parent_id (add_child h p2 c p1)\<rparr>
         \<and> (p1 \<noteq> c \<longrightarrow> add_child h p2 c p1 = h p1)"
  using assms by (auto simp add: add_child_def Let_def)

theorem reattach_keeps_old_parent_witness:
  "2 \<in> set (children (add_child family_heap 0 2 0)) \<and> (1::nat) \<noteq> 0 \<and> (0::nat) \<noteq> 2
   \<and> parent_id (add_child (add_child family_heap 0 2) 1 2 2) = Some ''p2''
   \<and> children (add_child (add_child family_heap 0 2) 1 2 0) = [2]
   \<and> add_child (add_child family_heap 0 2) 1 2 0 = add_child family_heap 0 2 0"
  using reattach_keeps_old_parent [of 2 "add_child family_heap 0 2" 0 1]
  by (simp add: children_add_child res_id_add_child family_heap_def blank_heap_def Resource_def)

section \<open>Flattening a forest\<close>

lemma height_le_foldr: "t \<in> set ts \<Longrightarrow> height t \<le> foldr max (map height ts) 0"
  by (induction ts) auto

lemma height_pos: "0 < height t"
  by (cases t) simp

lemma collect_forest:
  "(\<forall>t\<in>set ts. shape_of h t \<and> height t \<le> n) \<Longrightarrow>
   collect (Suc n) h (map rt_addr ts) = Some (concat (map preorder ts))"
proof (induction n arbitrary: ts)
  case 0
  have "ts = []"
  proof (cases ts)
    case (Cons t ts')
    then have "height t \<le> 0" using 0 by simp
    then show ?thesis using height_pos[of t] by simp
  qed simp
  then show ?case by simp
next
  case (Suc n)
  show ?case using Suc.prems
  proof (induction ts)
    case Nil
    then show ?case by simp
  next
    case (Cons t ts)
    obtain a subs where t: "t = RNode a subs" by (cases t)
    have sh: "shape_of h t" and ht: "height t \<le> Suc n" using Cons.prems by simp_all
    have ch: "children (h a) = map rt_addr subs" and shs: "\<forall>s\<in>set subs. shape_of h s"
      using sh t by simp_all
    have "foldr max (map height subs) 0 \<le> n" using ht t by simp
    then have "\<forall>s\<in>set subs. height s \<le> n"
      using height_le_foldr[of _ subs] by (meson le_trans)
    with shs have subs: "\<forall>s\<in>set subs. shape_of h s \<and> height s \<le> n" by simp
    have 1: "collect (Suc n) h (children (h a)) = Some (concat (map preorder subs))"
      unfolding ch using Suc.IH[OF subs] .
    have "\<forall>t\<in>set ts. shape_of h t \<and> height t \<le> Suc n" using Cons.prems by simp
    then have 2: "collect (Suc (Suc n)) h (map rt_addr ts) = Some (concat (map preorder ts))"
      using Cons.IH by simp
    show ?case using 1 2 t by simp
  qed
qed


lemma collect_mono:
  "collect n h rs = Some out \<Longrightarrow> n \<le> m \<Longrightarrow> collect m h rs = Some out"
proof (induction n h rs arbitrary: m out rule: collect.induct)
  case (1 h rs)
  then show ?case by simp
next
  case (2 n h)
  then obtain m' where "m = Suc m'" by (cases m) simp_all
  with 2 show ?case by simp
next
  case (3 n h r rs)
  obtain m' where m: "m = Suc m'" and le: "n \<le> m'" using "3.prems"(2) by (cases m) simp_all
  obtain sub where s: "collect n h (children (h r)) = Some sub"
    using "3.prems"(1) by (cases "collect n h (children (h r))") simp_all
  obtain others where o: "collect (Suc n) h rs = Some others"
    using "3.prems"(1) s by (cases "collect (Suc n) h rs") simp_all
  have out: "out = r # sub @ others" using "3.prems"(1) s o by simp
  have a: "collect m' h (children (h r)) = Some sub" using "3.IH"(1)[OF s le] .
  have "Suc n \<le> Suc m'" using le by simp
  then have b: "collect (Suc m') h rs = Some others" using "3.IH"(2)[OF s o] by blast
  show ?case using m out a b by simp
qed

lemma root_in_preorder: "rt_addr t \<in> set (preorder t)"
  by (cases t) simp

lemma preorder_reachable:
  "shape_of h t \<Longrightarrow> b \<in> set (preorder t) \<Longrightarrow> (rt_addr t, b) \<in> (child_rel h)\<^sup>*"
proof (induction t arbitrary: b)
  case (RNode a ts)
  show ?case
  proof (cases "b = a")
    case True then show ?thesis by simp
  next
    case False
    then obtain s where s: "s \<in> set ts" "b \<in> set (preorder s)" using RNode.prems(2) by auto
    have "shape_of h s" using RNode.prems(1) s(1) by simp
    then have r: "(rt_addr s, b) \<in> (child_rel h)\<^sup>*" using RNode.IH[OF s(1) _ s(2)] by simp
    have "rt_addr s \<in> set (children (h a))" using RNode.prems(1) s(1) by simp
    then have "(a, rt_addr s) \<in> child_rel h" by (simp add: child_rel_def)
    then show ?thesis using r by (simp add: converse_rtrancl_into_rtrancl)
  qed
qed

lemma child_in_subtree:
  assumes "shape_of h t" and "(rt_addr t, c) \<in> child_rel h"
  shows "\<exists>s\<in>set (rt_subs t). rt_addr s = c \<and> shape_of h s"
proof -
  obtain a ts where t: "t = RNode a ts" by (cases t)
  have "c \<in> set (map rt_addr ts)" using assms t by (simp add: child_rel_def)
  then obtain s where "s \<in> set ts" "rt_addr s = c" by auto
  then show ?thesis using assms(1) t by auto
qed

lemma reachable_preorder:
  "(a, b) \<in> (child_rel h)\<^sup>* \<Longrightarrow> shape_of h t \<Longrightarrow> rt_addr t = a \<Longrightarrow> b \<in> set (preorder t)"
proof (induction arbitrary: t rule: converse_rtrancl_induct)
  case base
  then show ?case using root_in_preorder[of t] by simp
next
  case (step a c)
  obtain s where s: "s \<in> set (rt_subs t)" "rt_addr s = c" "shape_of h s"
    using child_in_subtree[of h t c] step.hyps(1) step.prems by auto
  have "b \<in> set (preorder s)" using step.IH[OF s(3) s(2)] .
  then show ?case using s(1) by (cases t) auto
qed

lemma descendant_in_subtrees:
  assumes "(a, b) \<in> (child_rel h)\<^sup>+" and "shape_of h t" and "rt_addr t = a"
  shows "b \<in> set (concat (map preorder (rt_subs t)))"
proof -
  obtain c where c: "(a, c) \<in> child_rel h" "(c, b) \<in> (child_rel h)\<^sup>*"
    using assms(1) by (meson tranclD)
  obtain s where s: "s \<in> set (rt_subs t)" "rt_addr s = c" "shape_of h s"
    using child_in_subtree[of h t c] c(1) assms by auto
  have "b \<in> set (preorder s)" using reachable_preorder[OF c(2) s(3) s(2)] .
  then show ?thesis using s(1) by auto
qed

lemma forest_set:
  assumes "\<forall>t\<in>set ts. shape_of h t"
  shows "set (concat (map preorder ts)) = all_resources h (map rt_addr ts)"
proof (rule set_eqI, rule iffI)
  fix b assume "b \<in> set (concat (map preorder ts))"
  then obtain t where t: "t \<in> set ts" "b \<in> set (preorder t)" by auto
  then have "(rt_addr t, b) \<in> (child_rel h)\<^sup>*" using preorder_reachable assms by blast
  then show "b \<in> all_resources h (map rt_addr ts)" using t(1) by (auto simp: all_resources_def)
next
  fix b assume "b \<in> all_resources h (map rt_addr ts)"
  then obtain t where t: "t \<in> set ts" "(rt_addr t, b) \<in> (child_rel h)\<^sup>*"
    by (auto simp: all_resources_def)
  then have "b \<in> set (preorder t)" using reachable_preorder assms by blast
  then show "b \<in> set (concat (map preorder ts))" using t(1) by auto
qed


lemma subtree_shape: "shape_of h t \<Longrightarrow> s \<in> set (all_subtrees t) \<Longrightarrow> shape_of h s"
proof (induction t)
  case (RNode a ts)
  show ?case
  proof (cases "s = RNode a ts")
    case True then show ?thesis using RNode.prems(1) by simp
  next
    case False
    then obtain u where u: "u \<in> set ts" "s \<in> set (all_subtrees u)" using RNode.prems(2) by auto
    have "shape_of h u" using RNode.prems(1) u(1) by simp
    then show ?thesis using RNode.IH[OF u(1) _ u(2)] by simp
  qed
qed

lemma member_subtree: "a \<in> set (preorder t) \<Longrightarrow> \<exists>s\<in>set (all_subtrees t). rt_addr s = a"
proof (induction t)
  case (RNode r ts)
  show ?case
  proof (cases "a = r")
    case True then show ?thesis by auto
  next
    case False
    then obtain u where u: "u \<in> set ts" "a \<in> set (preorder u)" using RNode.prems by auto
    then obtain s where "s \<in> set (all_subtrees u)" "rt_addr s = a" using RNode.IH by blast
    then show ?thesis using u(1) by auto
  qed
qed

lemma concat_split:
  "t \<in> set ts \<Longrightarrow> \<exists>X Y. concat (map f ts) = X @ f t @ Y"
proof -
  assume "t \<in> set ts"
  then obtain ys zs where "ts = ys @ t # zs" by (meson split_list)
  then have "concat (map f ts) = concat (map f ys) @ f t @ concat (map f zs)" by simp
  then show ?thesis by blast
qed

lemma subtree_split:
  "s \<in> set (all_subtrees t) \<Longrightarrow> \<exists>X Y. preorder t = X @ preorder s @ Y"
proof (induction t)
  case (RNode a ts)
  show ?case
  proof (cases "s = RNode a ts")
    case True
    then have "preorder (RNode a ts) = [] @ preorder s @ []" by simp
    then show ?thesis by blast
  next
    case False
    then obtain u where u: "u \<in> set ts" "s \<in> set (all_subtrees u)" using RNode.prems by auto
    obtain X Y where 1: "preorder u = X @ preorder s @ Y" using RNode.IH[OF u] by blast
    obtain X' Y' where 2: "concat (map preorder ts) = X' @ preorder u @ Y'"
      using concat_split[OF u(1)] by blast
    have "preorder (RNode a ts) = (a # X' @ X) @ preorder s @ (Y @ Y')" using 1 2 by simp
    then show ?thesis by blast
  qed
qed

lemma forest_subtree:
  assumes "a \<in> set (concat (map preorder ts))" and "\<forall>t\<in>set ts. shape_of h t"
  shows "\<exists>s X Y. rt_addr s = a \<and> shape_of h s
           \<and> concat (map preorder ts) = X @ preorder s @ Y"
proof -
  obtain t where t: "t \<in> set ts" "a \<in> set (preorder t)" using assms(1) by auto
  obtain s where s: "s \<in> set (all_subtrees t)" "rt_addr s = a" using member_subtree[OF t(2)] by blast
  have sh: "shape_of h s" using subtree_shape[of h t s] assms(2) t(1) s(1) by simp
  obtain X Y where 1: "preorder t = X @ preorder s @ Y" using subtree_split[OF s(1)] by blast
  obtain X' Y' where 2: "concat (map preorder ts) = X' @ preorder t @ Y'"
    using concat_split[OF t(1)] by blast
  have "concat (map preorder ts) = (X' @ X) @ preorder s @ (Y @ Y')" using 1 2 by simp
  then show ?thesis using s(2) sh by blast
qed

lemma split_unique:
  assumes "distinct P" and "P = pre @ a # post" and "P = X @ a # Z"
  shows "post = Z"
proof -
  have "distinct (pre @ a # post)" "distinct (X @ a # Z)" using assms by simp_all
  then have n: "a \<notin> set pre" "a \<notin> set post" by simp_all
  have e: "pre @ a # post = X @ a # Z" using assms(2,3) by simp
  have "(pre @ a # post = X @ a # Z) = (pre = X \<and> post = Z)"
    by (rule append_Cons_eq_iff[OF n])
  then show ?thesis using e by simp
qed

lemma descendants_follow:
  assumes sh: "\<forall>t\<in>set ts. shape_of h t" and d: "distinct (concat (map preorder ts))"
    and P: "concat (map preorder ts) = pre @ a # post" and r: "(a, b) \<in> (child_rel h)\<^sup>+"
  shows "b \<in> set post"
proof -
  have "a \<in> set (concat (map preorder ts))" using P by simp
  then obtain s X Y where s: "rt_addr s = a" "shape_of h s"
    "concat (map preorder ts) = X @ preorder s @ Y" using forest_subtree[OF _ sh] by blast
  have b: "b \<in> set (concat (map preorder (rt_subs s)))"
    using descendant_in_subtrees[OF r s(2) s(1)] .
  have "preorder s = a # concat (map preorder (rt_subs s))" using s(1) by (cases s) simp
  then have "concat (map preorder ts) = X @ a # (concat (map preorder (rt_subs s)) @ Y)"
    using s(3) by simp
  then have "post = concat (map preorder (rt_subs s)) @ Y" using split_unique[OF d P] by simp
  then show ?thesis using b by simp
qed

lemma children_in_order:
  assumes sh: "\<forall>t\<in>set ts. shape_of h t" and d: "distinct (concat (map preorder ts))"
    and p: "p \<in> set (concat (map preorder ts))"
    and ij: "i < j" "j < length (children (h p))"
    and P: "concat (map preorder ts) = pre @ (children (h p) ! i) # post"
  shows "children (h p) ! j \<in> set post"
proof -
  obtain s X Y where s: "rt_addr s = p" "shape_of h s"
    "concat (map preorder ts) = X @ preorder s @ Y" using forest_subtree[OF p sh] by blast
  obtain subs where subs: "s = RNode p subs" using s(1) by (cases s) simp
  have ch: "children (h p) = map rt_addr subs" using s(2) subs by simp
  have len: "j < length subs" "i < length subs" using ij ch by simp_all
  have ci: "children (h p) ! i = rt_addr (subs ! i)" and cj: "children (h p) ! j = rt_addr (subs ! j)"
    using ch len by simp_all
  have "subs = take i subs @ subs ! i # drop (Suc i) subs" using len(2) by (simp add: id_take_nth_drop)
  then have "concat (map preorder subs) = concat (map preorder (take i subs)) @ preorder (subs ! i)
      @ concat (map preorder (drop (Suc i) subs))"
    by (metis concat.simps(2) concat_append list.simps(9) map_append)
  moreover have "preorder (subs ! i) = rt_addr (subs ! i) # concat (map preorder (rt_subs (subs ! i)))"
    by (cases "subs ! i") simp
  ultimately have "concat (map preorder ts) =
      (X @ p # concat (map preorder (take i subs))) @ rt_addr (subs ! i)
        # (concat (map preorder (rt_subs (subs ! i))) @ concat (map preorder (drop (Suc i) subs)) @ Y)"
    using s(3) subs by simp
  then have post: "post = concat (map preorder (rt_subs (subs ! i)))
       @ concat (map preorder (drop (Suc i) subs)) @ Y"
    using split_unique[OF d P[unfolded ci]] by simp
  have "subs ! j \<in> set (drop (Suc i) subs)"
  proof -
    have "drop (Suc i) subs ! (j - Suc i) = subs ! j" using ij(1) len(1) by simp
    moreover have "j - Suc i < length (drop (Suc i) subs)" using ij(1) len(1) by simp
    ultimately show ?thesis using nth_mem[of "j - Suc i" "drop (Suc i) subs"] by simp
  qed
  then have "rt_addr (subs ! j) \<in> set (concat (map preorder (drop (Suc i) subs)))"
    using root_in_preorder[of "subs ! j"] by auto
  then show ?thesis using post cj by simp
qed


text \<open>
  C8: on a forest (the heap and the root list have the shape of trees in which no
  Resource occurs twice), \<open>get_all_resources\<close> returns once the recursion may go as deep
  as the forest is, and what it returns has exactly as many entries as there are
  Resources in the forest, each of them once, in pre-order: every descendant of a
  Resource comes after it, and the children of a Resource come in the order of its
  \<open>children\<close> list.
\<close>

theorem get_all_resources_preorder:
  assumes "is_forest h (resources data) ts"
  shows "(\<exists>depth. \<forall>d\<ge>depth. get_all_resources d h data \<noteq> None)
    \<and> (\<forall>d out. get_all_resources d h data = Some out \<longrightarrow>
          length out = card (all_resources h (resources data))
        \<and> set out = all_resources h (resources data)
        \<and> distinct out
        \<and> out = concat (map preorder ts)
        \<and> (\<forall>a b pre post. out = pre @ a # post \<and> (a, b) \<in> (child_rel h)\<^sup>+ \<longrightarrow> b \<in> set post)
        \<and> (\<forall>p i j pre post. p \<in> set out \<and> i < j \<and> j < length (children (h p))
               \<and> out = pre @ (children (h p) ! i) # post \<longrightarrow> children (h p) ! j \<in> set post))"
proof -
  let ?P = "concat (map preorder ts)"
  have roots: "resources data = map rt_addr ts" and sh: "\<forall>t\<in>set ts. shape_of h t"
    and d: "distinct ?P" using assms by (simp_all add: is_forest_def)
  define n where "n = foldr max (map height ts) 0"
  have "\<forall>t\<in>set ts. shape_of h t \<and> height t \<le> n"
    using sh height_le_foldr[of _ ts] by (simp add: n_def)
  then have run: "collect (Suc n) h (map rt_addr ts) = Some ?P" by (rule collect_forest)
  have enough: "\<forall>d\<ge>Suc n. get_all_resources d h data \<noteq> None"
    using collect_mono[OF run] by (simp add: get_all_resources_def roots)
  have result: "out = ?P" if "get_all_resources d h data = Some out" for d out
  proof -
    have 1: "collect d h (map rt_addr ts) = Some out"
      using that by (simp add: get_all_resources_def roots)
    have "collect (max d (Suc n)) h (map rt_addr ts) = Some out"
      using collect_mono[OF 1] by simp
    moreover have "collect (max d (Suc n)) h (map rt_addr ts) = Some ?P"
      using collect_mono[OF run] by simp
    ultimately show ?thesis by simp
  qed
  have set: "set ?P = all_resources h (resources data)"
    using forest_set[OF sh] by (simp add: roots)
  have len: "length ?P = card (all_resources h (resources data))"
    using distinct_card[OF d] set by simp
  have desc: "\<forall>a b pre post. ?P = pre @ a # post \<and> (a, b) \<in> (child_rel h)\<^sup>+ \<longrightarrow> b \<in> set post"
    using descendants_follow[OF sh d] by blast
  have ord: "\<forall>p i j pre post. p \<in> set ?P \<and> i < j \<and> j < length (children (h p))
               \<and> ?P = pre @ (children (h p) ! i) # post \<longrightarrow> children (h p) ! j \<in> set post"
    using children_in_order[OF sh d] by blast
  show ?thesis
  proof (intro conjI allI impI)
    show "\<exists>depth. \<forall>d\<ge>depth. get_all_resources d h data \<noteq> None" using enough by blast
  next
    fix d out assume g: "get_all_resources d h data = Some out"
    show "length out = card (all_resources h (resources data))" using result[OF g] len by simp
    show "set out = all_resources h (resources data)" using result[OF g] set by simp
    show "distinct out" using result[OF g] d by simp
    show "out = ?P" using result[OF g] .
  next
    fix d out a b pre post
    assume g: "get_all_resources d h data = Some out"
      and x: "out = pre @ a # post \<and> (a, b) \<in> (child_rel h)\<^sup>+"
    from x have "?P = pre @ a # post \<and> (a, b) \<in> (child_rel h)\<^sup>+" unfolding result[OF g] .
    then show "b \<in> set post" by (rule desc[rule_format])
  next
    fix d out p i j pre post
    assume g: "get_all_resources d h data = Some out"
      and x: "p \<in> set out \<and> i < j \<and> j < length (children (h p))
               \<and> out = pre @ (children (h p) ! i) # post"
    from x have "p \<in> set ?P \<and> i < j \<and> j < length (children (h p))
               \<and> ?P = pre @ (children (h p) ! i) # post" unfolding result[OF g] .
    then show "children (h p) ! j \<in> set post" by (rule ord[rule_format])
  qed
qed

theorem get_all_resources_preorder_witness:
  "is_forest tree_heap (resources tree_data) tree_shape
   \<and> get_all_resources 4 tree_heap tree_data = Some [0, 1, 3, 2]
   \<and> card (all_resources tree_heap (resources tree_data)) = 4"
proof -
  have f: "is_forest tree_heap (resources tree_data) tree_shape"
    by (simp add: is_forest_def tree_heap_def tree_data_def tree_shape_def blank_heap_def
        Resource_def add_resource_def ConversionData_def)
  have g: "get_all_resources 4 tree_heap tree_data = Some [0, 1, 3, 2]"
    by (simp add: get_all_resources_def tree_heap_def tree_data_def blank_heap_def
        Resource_def add_resource_def ConversionData_def eval_nat_numeral)
  note t = get_all_resources_preorder [OF f, THEN conjunct2, rule_format, OF g]
  have "card (all_resources tree_heap (resources tree_data)) = 4"
    using t [THEN conjunct1] by simp
  then show ?thesis using f g by simp
qed

section \<open>The hierarchy built by parse_json\<close>

lemma second_pass_resources:
  "distinct rs \<Longrightarrow>
   resources (snd (second_pass d rs h data)) =
     resources data @ filter (\<lambda>a. resolve_parent d (parent_id (h a)) = None) rs"
proof (induction rs arbitrary: h data)
  case Nil
  then show ?case by simp
next
  case (Cons r rs)
  have nr: "r \<notin> set rs" and dr: "distinct rs" using Cons.prems by simp_all
  show ?case
  proof (cases "resolve_parent d (parent_id (h r))")
    case None
    then show ?thesis using Cons.IH[OF dr, of h "add_resource data r"]
      by (simp add: add_resource_def)
  next
    case (Some p)
    have "filter (\<lambda>a. resolve_parent d (parent_id (add_child h p r a)) = None) rs
        = filter (\<lambda>a. resolve_parent d (parent_id (h a)) = None) rs"
      using nr by (intro filter_cong) (auto simp: parent_id_add_child)
    then show ?thesis using Some Cons.IH[OF dr, of "add_child h p r" data] by simp
  qed
qed

lemma second_pass_children:
  "distinct rs \<Longrightarrow>
   children (fst (second_pass d rs h data) p) =
     children (h p) @ filter (\<lambda>a. resolve_parent d (parent_id (h a)) = Some p) rs"
proof (induction rs arbitrary: h data)
  case Nil
  then show ?case by simp
next
  case (Cons r rs)
  have nr: "r \<notin> set rs" and dr: "distinct rs" using Cons.prems by simp_all
  show ?case
  proof (cases "resolve_parent d (parent_id (h r))")
    case None
    then show ?thesis using Cons.IH[OF dr, of h "add_resource data r"] by simp
  next
    case (Some q)
    have "filter (\<lambda>a. resolve_parent d (parent_id (add_child h q r a)) = Some p) rs
        = filter (\<lambda>a. resolve_parent d (parent_id (h a)) = Some p) rs"
      using nr by (intro filter_cong) (auto simp: parent_id_add_child)
    then show ?thesis using Some Cons.IH[OF dr, of "add_child h q r" data]
      by (simp add: children_add_child)
  qed
qed

lemma second_pass_res_id:
  "res_id (fst (second_pass d rs h data) a) = res_id (h a)"
proof (induction rs arbitrary: h data)
  case Nil
  then show ?case by simp
next
  case (Cons r rs)
  show ?case
  proof (cases "resolve_parent d (parent_id (h r))")
    case None
    then show ?thesis using Cons.IH[of h "add_resource data r"] by simp
  next
    case (Some q)
    then show ?thesis using Cons.IH[of "add_child h q r" data] by (simp add: res_id_add_child)
  qed
qed

lemma second_pass_parent_id:
  "distinct rs \<Longrightarrow>
   parent_id (fst (second_pass d rs h data) a) =
     (if a \<in> set rs
      then (case resolve_parent d (parent_id (h a)) of
              Some p \<Rightarrow> Some (res_id (h p)) | None \<Rightarrow> parent_id (h a))
      else parent_id (h a))"
proof (induction rs arbitrary: h data)
  case Nil
  then show ?case by simp
next
  case (Cons r rs)
  have nr: "r \<notin> set rs" and dr: "distinct rs" using Cons.prems by simp_all
  show ?case
  proof (cases "resolve_parent d (parent_id (h r))")
    case None
    then show ?thesis using Cons.IH[OF dr, of h "add_resource data r"] nr by auto
  next
    case (Some q)
    show ?thesis
    proof (cases "a = r")
      case True
      then show ?thesis using Some Cons.IH[OF dr, of "add_child h q r" data] nr
        by (simp add: parent_id_add_child)
    next
      case False
      then show ?thesis using Some Cons.IH[OF dr, of "add_child h q r" data]
        by (simp add: parent_id_add_child res_id_add_child split: option.splits)
    qed
  qed
qed


lemma parse_resource_fields:
  assumes "parse_resource r = Inr x"
  shows "res_id x = record_id r" and "parent_id x = rec_parentId r" and "children x = []"
proof -
  obtain c where c: "extract_content_from_documents (dget (rec_documents r) []) = Inr c"
    using assms by (cases "extract_content_from_documents (dget (rec_documents r) [])")
      (simp_all add: parse_resource_def Let_def)
  show "res_id x = record_id r" and "parent_id x = rec_parentId r" and "children x = []"
    using assms c
    by (auto simp: parse_resource_def Let_def Resource_def record_id_def split: option.splits if_splits)
qed

lemma first_pass_append:
  "first_pass (rs @ [r]) h n d =
     (case first_pass rs h n d of
        Inl e \<Rightarrow> Inl e
      | Inr hr \<Rightarrow>
          (case parse_resource r of
             Inl e \<Rightarrow> Inl e
           | Inr x \<Rightarrow> Inr ((fst hr)(n + length rs := x),
                            AList.update (res_id x) (n + length rs) (snd hr))))"
proof (induction rs arbitrary: h n d)
  case Nil
  show ?case by (cases "parse_resource r") simp_all
next
  case (Cons a rs)
  show ?case by (cases "parse_resource a") (simp_all add: Cons.IH del: fun_upd_apply split: sum.splits)
qed

lemma first_pass_total:
  "records_parse recs \<Longrightarrow> \<exists>h' d'. first_pass recs h n d = Inr (h', d')"
proof (induction recs arbitrary: h n d)
  case Nil
  then show ?case by simp
next
  case (Cons r recs)
  then obtain x where x: "parse_resource r = Inr x"
    by (cases "parse_resource r") (simp_all add: records_parse_def)
  have "records_parse recs" using Cons.prems by (simp add: records_parse_def)
  then show ?case using Cons.IH x by simp
qed

lemma last_with_id_snoc:
  "last_with_id (rs @ [r]) k = (if record_id r = k then Some (length rs) else last_with_id rs k)"
proof -
  have "filter (\<lambda>i. record_id ((rs @ [r]) ! i) = k) [0..<length rs]
      = filter (\<lambda>i. record_id (rs ! i) = k) [0..<length rs]"
    by (intro filter_cong) (auto simp: nth_append)
  then have "filter (\<lambda>i. record_id ((rs @ [r]) ! i) = k) [0..<length (rs @ [r])]
      = filter (\<lambda>i. record_id (rs ! i) = k) [0..<length rs]
        @ (if record_id r = k then [length rs] else [])"
    by simp
  then show ?thesis
    by (cases "filter (\<lambda>i. record_id (rs ! i) = k) [0..<length rs]")
       (simp_all add: last_with_id_def)
qed

lemma last_with_id_Some:
  assumes "last_with_id recs k = Some i"
  shows "i < length recs" and "record_id (recs ! i) = k"
proof -
  let ?f = "filter (\<lambda>i. record_id (recs ! i) = k) [0..<length recs]"
  have ne: "?f \<noteq> []" and i: "i = last ?f"
    using assms by (auto simp: last_with_id_def split: list.splits)
  have "last ?f \<in> set ?f" using ne by (rule last_in_set)
  then have "i \<in> set ?f" using i by simp
  then show "i < length recs" and "record_id (recs ! i) = k" by simp_all
qed

lemma last_with_id_None:
  "last_with_id recs k = None \<Longrightarrow> i < length recs \<Longrightarrow> record_id (recs ! i) \<noteq> k"
proof -
  assume a: "last_with_id recs k = None" and i: "i < length recs"
  have "filter (\<lambda>i. record_id (recs ! i) = k) [0..<length recs] = []"
    using a by (auto simp: last_with_id_def split: list.splits)
  then have "\<forall>j\<in>set [0..<length recs]. record_id (recs ! j) \<noteq> k"
    by (simp add: filter_empty_conv)
  then show ?thesis using i by simp
qed

lemma first_pass_inv:
  "first_pass recs h 0 [] = Inr (h', d') \<Longrightarrow>
     (\<forall>i<length recs. parse_resource (recs ! i) = Inr (h' i))
   \<and> (\<forall>a\<ge>length recs. h' a = h a)
   \<and> (\<forall>k. map_of d' k = last_with_id recs k)
   \<and> distinct (map fst d')"
proof (induction recs arbitrary: h' d' rule: rev_induct)
  case Nil
  then show ?case by (auto simp: last_with_id_def)
next
  case (snoc r rs)
  obtain h1 d1 where 1: "first_pass rs h 0 [] = Inr (h1, d1)"
    using snoc.prems by (cases "first_pass rs h 0 []") (auto simp: first_pass_append)
  obtain x where x: "parse_resource r = Inr x"
    using snoc.prems 1 by (cases "parse_resource r") (auto simp: first_pass_append)
  have h': "h' = h1(length rs := x)" and d': "d' = AList.update (res_id x) (length rs) d1"
    using snoc.prems 1 x by (simp_all add: first_pass_append)
  note IH = snoc.IH[OF 1]
  have a: "\<forall>i<length (rs @ [r]). parse_resource ((rs @ [r]) ! i) = Inr (h' i)"
    using IH x h' by (auto simp: nth_append less_Suc_eq)
  have b: "\<forall>a\<ge>length (rs @ [r]). h' a = h a" using IH h' by simp
  have "res_id x = record_id r" using parse_resource_fields(1)[OF x] .
  then have c: "\<forall>k. map_of d' k = last_with_id (rs @ [r]) k"
    using IH d' by (simp add: update_conv' last_with_id_snoc)
  have d: "distinct (map fst d')" using IH d' by (simp add: distinct_update)
  show ?case using a b c d by blast
qed


lemma resolve_parent_record:
  assumes "\<forall>k. map_of d k = last_with_id recs k"
  shows "resolve_parent d (rec_parentId r) = record_parent recs r"
  using assms by (simp add: resolve_parent_def record_parent_def split: option.splits)

lemma dict_values:
  assumes m: "\<forall>k. map_of d k = last_with_id recs k" and dk: "distinct (map fst d)"
  shows "set (map snd d) = {i. i < length recs \<and> last_with_id recs (record_id (recs ! i)) = Some i}"
    and "distinct (map snd d)"
proof -
  have mem: "(k, a) \<in> set d \<longleftrightarrow> last_with_id recs k = Some a" for k a
    using map_of_eq_Some_iff[OF dk, of k a] m by simp
  show "set (map snd d) = {i. i < length recs \<and> last_with_id recs (record_id (recs ! i)) = Some i}"
  proof (rule set_eqI, rule iffI)
    fix a assume "a \<in> set (map snd d)"
    then obtain k where "(k, a) \<in> set d" by auto
    then have l: "last_with_id recs k = Some a" using mem by simp
    then show "a \<in> {i. i < length recs \<and> last_with_id recs (record_id (recs ! i)) = Some i}"
      using last_with_id_Some[OF l] by simp
  next
    fix a assume "a \<in> {i. i < length recs \<and> last_with_id recs (record_id (recs ! i)) = Some i}"
    then have "(record_id (recs ! a), a) \<in> set d" using mem by simp
    then show "a \<in> set (map snd d)" by force
  qed
  have "inj_on snd (set d)"
  proof (rule inj_onI)
    fix x y assume x: "x \<in> set d" and y: "y \<in> set d" and e: "snd x = snd y"
    have "last_with_id recs (fst x) = Some (snd x)" using x mem[of "fst x" "snd x"] by simp
    then have 1: "fst x = record_id (recs ! snd x)" using last_with_id_Some(2) by metis
    have "last_with_id recs (fst y) = Some (snd y)" using y mem[of "fst y" "snd y"] by simp
    then have 2: "fst y = record_id (recs ! snd y)" using last_with_id_Some(2) by metis
    show "x = y" using 1 2 e by (simp add: prod_eq_iff)
  qed
  moreover have "distinct d" using dk by (simp add: distinct_map)
  ultimately show "distinct (map snd d)" by (simp add: distinct_map)
qed

lemma parse_json_char:
  assumes ok: "records_parse recs" and recs: "dget (exp_resources lk_data) [] = recs"
  shows "\<exists>h data. parse_json lk_data h0 = Inr (h, data)
    \<and> set (resources data) = {i. i < length recs
          \<and> last_with_id recs (record_id (recs ! i)) = Some i
          \<and> record_parent recs (recs ! i) = None}
    \<and> distinct (resources data)
    \<and> (\<forall>p<length recs. set (children (h p)) = {i. i < length recs
          \<and> last_with_id recs (record_id (recs ! i)) = Some i
          \<and> record_parent recs (recs ! i) = Some p}
          \<and> distinct (children (h p)))
    \<and> (\<forall>i<length recs. res_id (h i) = record_id (recs ! i)
          \<and> parent_id (h i) = rec_parentId (recs ! i))"
proof -
  define data0 where "data0 = ConversionData\<lparr>metadata_version := Some (dget (exp_version lk_data) 1),
                   metadata_exportId := Some (dget (exp_exportId lk_data) []),
                   metadata_exportedAt := Some (dget (exp_exportedAt lk_data) [])\<rparr>"
  obtain h1 d where fp: "first_pass recs h0 0 [] = Inr (h1, d)"
    using first_pass_total[OF ok] by blast
  note inv = first_pass_inv[OF fp]
  have cell: "parse_resource (recs ! i) = Inr (h1 i)" if "i < length recs" for i
    using inv that by simp
  have m: "\<forall>k. map_of d k = last_with_id recs k" and dk: "distinct (map fst d)"
    using inv by simp_all
  note vals = dict_values[OF m dk]
  define h where "h = fst (second_pass d (map snd d) h1 data0)"
  define data where "data = snd (second_pass d (map snd d) h1 data0)"
  have pj: "parse_json lk_data h0 = Inr (h, data)"
    by (simp add: parse_json_def Let_def recs fp h_def data_def data0_def)
  have res: "resolve_parent d (parent_id (h1 a)) = record_parent recs (recs ! a)"
    if "a \<in> set (map snd d)" for a
  proof -
    have "a < length recs" using that vals(1) by simp
    then have "parent_id (h1 a) = rec_parentId (recs ! a)"
      using parse_resource_fields(2)[OF cell] by simp
    then show ?thesis using resolve_parent_record[OF m] by simp
  qed
  have f1: "filter (\<lambda>a. resolve_parent d (parent_id (h1 a)) = x) (map snd d)
          = filter (\<lambda>a. record_parent recs (recs ! a) = x) (map snd d)" for x
    by (rule filter_cong) (simp_all add: res)
  have roots: "resources data = filter (\<lambda>a. record_parent recs (recs ! a) = None) (map snd d)"
    using second_pass_resources[OF vals(2), of d h1 data0] f1[of None]
    by (simp add: data_def data0_def ConversionData_def)
  have kids: "children (h p) = filter (\<lambda>a. record_parent recs (recs ! a) = Some p) (map snd d)"
    if "p < length recs" for p
  proof -
    have "children (h1 p) = []" using parse_resource_fields(3)[OF cell[OF that]] .
    then show ?thesis
      using second_pass_children[OF vals(2), of d h1 data0 p] f1[of "Some p"] by (simp add: h_def)
  qed
  have ids: "res_id (h i) = record_id (recs ! i)" if "i < length recs" for i
    using second_pass_res_id[of d "map snd d" h1 data0 i] parse_resource_fields(1)[OF cell[OF that]]
    by (simp add: h_def)
  have par: "parent_id (h i) = rec_parentId (recs ! i)" if i: "i < length recs" for i
  proof -
    have p1: "parent_id (h1 i) = rec_parentId (recs ! i)"
      using parse_resource_fields(2)[OF cell[OF i]] .
    show ?thesis
    proof (cases "i \<in> set (map snd d)")
      case False
      then show ?thesis using second_pass_parent_id[OF vals(2), of d h1 data0 i] p1
        by (simp add: h_def)
    next
      case True
      show ?thesis
      proof (cases "record_parent recs (recs ! i)")
        case None
        then show ?thesis using second_pass_parent_id[OF vals(2), of d h1 data0 i] p1 True res[OF True]
          by (simp add: h_def)
      next
        case (Some p)
        then obtain pid where pid: "rec_parentId (recs ! i) = Some pid" "last_with_id recs pid = Some p"
          by (auto simp: record_parent_def split: option.splits if_splits)
        have "p < length recs" and "record_id (recs ! p) = pid"
          using last_with_id_Some[OF pid(2)] by simp_all
        then have "res_id (h1 p) = pid" using parse_resource_fields(1)[OF cell] by simp
        then show ?thesis
          using second_pass_parent_id[OF vals(2), of d h1 data0 i] True res[OF True] Some pid(1)
          by (simp add: h_def)
      qed
    qed
  qed
  have "set (resources data) = {i. i < length recs
          \<and> last_with_id recs (record_id (recs ! i)) = Some i
          \<and> record_parent recs (recs ! i) = None}"
    using roots vals(1) by auto
  moreover have "distinct (resources data)" using roots vals(2) by simp
  moreover have "\<forall>p<length recs. set (children (h p)) = {i. i < length recs
          \<and> last_with_id recs (record_id (recs ! i)) = Some i
          \<and> record_parent recs (recs ! i) = Some p}
          \<and> distinct (children (h p))"
    using kids vals by auto
  moreover have "\<forall>i<length recs. res_id (h i) = record_id (recs ! i)
          \<and> parent_id (h i) = rec_parentId (recs ! i)"
    using ids par by simp
  ultimately show ?thesis using pj by blast
qed


text \<open>
  C4, as stated, fails. Attaching the Resource at 2 to the one at 0 and then to the one at 1
  leaves it in both \<open>children\<close> lists, with a \<open>parent_id\<close> that is not the \<open>id\<close> of the
  first of its two parents.
\<close>

theorem shared_child_counterexample:
  "2 \<in> set (children (add_child (add_child family_heap 0 2) 1 2 0))
   \<and> 2 \<in> set (children (add_child (add_child family_heap 0 2) 1 2 1))
   \<and> parent_id (add_child (add_child family_heap 0 2) 1 2 2)
       \<noteq> Some (res_id (add_child (add_child family_heap 0 2) 1 2 0))"
  by (simp add: add_child_def family_heap_def blank_heap_def Resource_def Let_def)

text \<open>
  Nor does \<open>parse_json\<close> keep cycles out: two records that name each other as parent
  become each other's child, and the root list stays empty.
\<close>

lemma parse_json_cycle:
  "result_roots (parse_json (mk_export [mk_record ''a'' ''A'' (Some ''b''),
                                         mk_record ''b'' ''B'' (Some ''a'')]) blank_heap) = Some []
   \<and> result_children (parse_json (mk_export [mk_record ''a'' ''A'' (Some ''b''),
                                         mk_record ''b'' ''B'' (Some ''a'')]) blank_heap) 0 = Some [1]
   \<and> result_children (parse_json (mk_export [mk_record ''a'' ''A'' (Some ''b''),
                                         mk_record ''b'' ''B'' (Some ''a'')]) blank_heap) 1 = Some [0]"
  by (simp add: parse_json_def parse_resource_def extract_content_from_documents_def
      mk_export_def mk_record_def Resource_def resolve_parent_def add_child_def
      add_resource_def ConversionData_def result_roots_def result_children_def Let_def)

text \<open>
  C4, amended: in the state \<open>parse_json\<close> builds from records whose bodies it can read, no
  Resource is in the \<open>children\<close> lists of two Resources nor twice in one, every child's
  \<open>parent_id\<close> is its parent's \<open>id\<close>, no child is also a root, and no root is listed
  twice. (Acyclicity is not part of it, and for \<open>add_child\<close> calls in general shared
  ownership is possible.)
\<close>

theorem parse_json_single_owner:
  assumes "records_parse recs" and "dget (exp_resources lk_data) [] = recs"
  shows "\<exists>h data. parse_json lk_data h0 = Inr (h, data)
    \<and> (\<forall>p<length recs. \<forall>q<length recs. \<forall>c.
          c \<in> set (children (h p)) \<and> c \<in> set (children (h q)) \<longrightarrow> p = q)
    \<and> (\<forall>p<length recs. distinct (children (h p)))
    \<and> (\<forall>p<length recs. \<forall>c\<in>set (children (h p)).
          parent_id (h c) = Some (res_id (h p)) \<and> c \<notin> set (resources data))
    \<and> distinct (resources data)"
proof -
  obtain h data where pj: "parse_json lk_data h0 = Inr (h, data)"
    and roots: "set (resources data) = {i. i < length recs
          \<and> last_with_id recs (record_id (recs ! i)) = Some i
          \<and> record_parent recs (recs ! i) = None}"
    and dr: "distinct (resources data)"
    and kids: "\<forall>p<length recs. set (children (h p)) = {i. i < length recs
          \<and> last_with_id recs (record_id (recs ! i)) = Some i
          \<and> record_parent recs (recs ! i) = Some p}
          \<and> distinct (children (h p))"
    and flds: "\<forall>i<length recs. res_id (h i) = record_id (recs ! i)
          \<and> parent_id (h i) = rec_parentId (recs ! i)"
    using parse_json_char[OF assms, of h0] by blast
  have one: "p = q" if "p < length recs" "q < length recs"
    "c \<in> set (children (h p)) \<and> c \<in> set (children (h q))" for p q c
    using kids that by auto
  have par: "parent_id (h c) = Some (res_id (h p)) \<and> c \<notin> set (resources data)"
    if p: "p < length recs" and c: "c \<in> set (children (h p))" for p c
  proof -
    have c1: "c < length recs" and c2: "record_parent recs (recs ! c) = Some p"
      using kids p c by auto
    obtain pid where pid: "rec_parentId (recs ! c) = Some pid" "last_with_id recs pid = Some p"
      using c2 by (auto simp: record_parent_def split: option.splits if_splits)
    have "record_id (recs ! p) = pid" using last_with_id_Some(2)[OF pid(2)] .
    then have "parent_id (h c) = Some (res_id (h p))" using flds c1 p pid(1) by simp
    moreover have "c \<notin> set (resources data)" using roots c2 by simp
    ultimately show ?thesis by simp
  qed
  show ?thesis using pj one kids par dr by blast
qed

theorem parse_json_single_owner_witness:
  "records_parse small_records
   \<and> dget (exp_resources (mk_export small_records)) [] = small_records
   \<and> result_roots (parse_json (mk_export small_records) blank_heap) = Some [0, 2]
   \<and> result_children (parse_json (mk_export small_records) blank_heap) 0 = Some [1]"
  using parse_json_single_owner [of small_records "mk_export small_records" blank_heap]
  by (simp add: records_parse_def parse_json_def parse_resource_def
      extract_content_from_documents_def small_records_def
      mk_export_def mk_record_def Resource_def resolve_parent_def add_child_def
      add_resource_def ConversionData_def result_roots_def result_children_def Let_def)


lemma count_list_distinct: "distinct xs \<Longrightarrow> x \<in> set xs \<Longrightarrow> count_list xs x = 1"
  by (induction xs) (auto simp: count_list_0_iff)

lemma last_with_id_None_iff:
  "last_with_id recs k = None \<longleftrightarrow> k \<notin> record_id ` set recs"
proof
  assume "last_with_id recs k = None"
  then have "\<forall>i<length recs. record_id (recs ! i) \<noteq> k" using last_with_id_None by blast
  then show "k \<notin> record_id ` set recs" by (auto simp: in_set_conv_nth)
next
  assume a: "k \<notin> record_id ` set recs"
  show "last_with_id recs k = None"
  proof (cases "last_with_id recs k")
    case (Some i)
    then have "i < length recs" "record_id (recs ! i) = k" using last_with_id_Some by blast+
    then show ?thesis using a by force
  qed simp
qed

text \<open>
  C9, as stated, fails. Of two records with the same id the second replaces the first in
  the id index, so the first, whose parent reference is absent, is not made a root (nor
  anything else): the only root is the Resource of the second record.
\<close>

theorem duplicate_id_counterexample:
  "rec_parentId (twin_records ! 0) = None
   \<and> result_roots (parse_json (mk_export twin_records) blank_heap) = Some [1]
   \<and> result_children (parse_json (mk_export twin_records) blank_heap) 1 = Some []"
  by (simp add: parse_json_def parse_resource_def extract_content_from_documents_def
      twin_records_def mk_export_def mk_record_def Resource_def resolve_parent_def
      add_resource_def ConversionData_def result_roots_def result_children_def Let_def)

text \<open>
  C9, amended: \<open>parse_json\<close> returns whatever the parent references are (it raises only
  when \<open>_process_nodes\<close> raises on the body of a record). Of the records with one id the
  last is the one kept. A kept record whose parent reference is absent, empty or the id
  of no record becomes a root, once, and nobody's child; a kept record whose parent
  reference is the (non-empty) id of a record becomes, once, a child of the last record
  with that id, and no root.
\<close>

theorem parse_json_roots_and_children:
  assumes "records_parse recs" and "dget (exp_resources lk_data) [] = recs"
  shows "\<exists>h data. parse_json lk_data h0 = Inr (h, data)
    \<and> (\<forall>i<length recs. last_with_id recs (record_id (recs ! i)) = Some i \<longrightarrow>
          (record_parent recs (recs ! i) = None \<longrightarrow>
             count_list (resources data) i = 1
             \<and> (\<forall>p<length recs. i \<notin> set (children (h p))))
        \<and> (\<forall>p. record_parent recs (recs ! i) = Some p \<longrightarrow>
             p < length recs \<and> count_list (children (h p)) i = 1
             \<and> i \<notin> set (resources data)
             \<and> rec_parentId (recs ! i) = Some (res_id (h p))))
    \<and> (\<forall>r. record_parent recs r = None \<longleftrightarrow>
          rec_parentId r = None \<or> rec_parentId r = Some []
          \<or> (\<exists>pid. rec_parentId r = Some pid \<and> pid \<notin> record_id ` set recs))"
proof -
  obtain h data where pj: "parse_json lk_data h0 = Inr (h, data)"
    and roots: "set (resources data) = {i. i < length recs
          \<and> last_with_id recs (record_id (recs ! i)) = Some i
          \<and> record_parent recs (recs ! i) = None}"
    and dr: "distinct (resources data)"
    and kids: "\<forall>p<length recs. set (children (h p)) = {i. i < length recs
          \<and> last_with_id recs (record_id (recs ! i)) = Some i
          \<and> record_parent recs (recs ! i) = Some p}
          \<and> distinct (children (h p))"
    and flds: "\<forall>i<length recs. res_id (h i) = record_id (recs ! i)
          \<and> parent_id (h i) = rec_parentId (recs ! i)"
    using parse_json_char[OF assms, of h0] by blast
  have a: "count_list (resources data) i = 1 \<and> (\<forall>p<length recs. i \<notin> set (children (h p)))"
    if "i < length recs" "last_with_id recs (record_id (recs ! i)) = Some i"
       "record_parent recs (recs ! i) = None" for i
  proof -
    have "i \<in> set (resources data)" using roots that by simp
    then have "count_list (resources data) i = 1" using dr by (simp add: count_list_distinct)
    moreover have "\<forall>p<length recs. i \<notin> set (children (h p))" using kids that(3) by simp
    ultimately show ?thesis by simp
  qed
  have b: "p < length recs \<and> count_list (children (h p)) i = 1 \<and> i \<notin> set (resources data)
      \<and> rec_parentId (recs ! i) = Some (res_id (h p))"
    if "i < length recs" "last_with_id recs (record_id (recs ! i)) = Some i"
       "record_parent recs (recs ! i) = Some p" for i p
  proof -
    note rp = that(3)
    obtain pid where pid: "rec_parentId (recs ! i) = Some pid" "last_with_id recs pid = Some p"
      using rp by (auto simp: record_parent_def split: option.splits if_splits)
    have p: "p < length recs" and pi: "record_id (recs ! p) = pid"
      using last_with_id_Some[OF pid(2)] by simp_all
    have "i \<in> set (children (h p))" using kids p that by simp
    then have "count_list (children (h p)) i = 1" using kids p by (simp add: count_list_distinct)
    moreover have "i \<notin> set (resources data)" using roots that(3) by simp
    moreover have "rec_parentId (recs ! i) = Some (res_id (h p))" using flds p pi pid(1) by simp
    ultimately show ?thesis using p by simp
  qed
  have c: "record_parent recs r = None \<longleftrightarrow>
          rec_parentId r = None \<or> rec_parentId r = Some []
          \<or> (\<exists>pid. rec_parentId r = Some pid \<and> pid \<notin> record_id ` set recs)" for r
    by (cases "rec_parentId r") (auto simp: record_parent_def last_with_id_None_iff)
  show ?thesis using pj a b c by blast
qed

theorem parse_json_roots_and_children_witness:
  "records_parse small_records
   \<and> dget (exp_resources (mk_export small_records)) [] = small_records
   \<and> last_with_id small_records (record_id (small_records ! 2)) = Some 2
   \<and> record_parent small_records (small_records ! 2) = None
   \<and> record_parent small_records (small_records ! 1) = Some 0
   \<and> result_roots (parse_json (mk_export small_records) blank_heap) = Some [0, 2]
   \<and> result_children (parse_json (mk_export small_records) blank_heap) 0 = Some [1]"
  using parse_json_roots_and_children [of small_records "mk_export small_records" blank_heap]
  by (simp add: records_parse_def parse_json_def parse_resource_def
      extract_content_from_documents_def small_records_def record_parent_def last_with_id_def
      record_id_def mk_export_def mk_record_def Resource_def resolve_parent_def add_child_def
      add_resource_def ConversionData_def result_roots_def result_children_def Let_def
      upt_conv_Cons)

section \<open>Names and identifiers from file names\<close>

lemma hex_not_space: "is_hex c \<Longrightarrow> \<not> is_space c"
  by (auto simp: is_hex_def is_space_def)

lemma hex_not_newline: "is_hex c \<Longrightarrow> c \<noteq> newline"
  by (auto simp: is_hex_def newline_def)

lemma token_atD:
  assumes "token_at s"
  shows "\<exists>t e. s = t @ e \<and> length t = 32 \<and> (\<forall>c\<in>set t. is_hex c) \<and> (e = [] \<or> e = [newline])"
proof -
  have "s = take 32 s @ drop 32 s" by simp
  moreover have "length (take 32 s) = 32" "\<forall>c\<in>set (take 32 s). is_hex c"
    "drop 32 s = [] \<or> drop 32 s = [newline]"
    using assms by (simp_all add: token_at_def at_end_def)
  ultimately show ?thesis by blast
qed

lemma token_at_self: "length t = 32 \<Longrightarrow> \<forall>c\<in>set t. is_hex c \<Longrightarrow> token_at t"
  by (simp add: token_at_def at_end_def)

lemma no_early_token:
  assumes t: "length t = 32" "\<forall>c\<in>set t. is_hex c" and u: "u \<noteq> []"
  shows "\<not> token_at (u @ t)"
proof
  assume "token_at (u @ t)"
  then obtain t' e where e: "u @ t = t' @ e" "length t' = 32" "e = [] \<or> e = [newline]"
    using token_atD by blast
  have "length (u @ t) = length (t' @ e)" using e(1) by simp
  then have "e \<noteq> []" using t(1) e(2) u by auto
  then have en: "e = [newline]" using e(3) by simp
  have "t \<noteq> []" using t(1) by auto
  then have "last (u @ t) = last t" by simp
  moreover have "last (t' @ e) = newline" using en by simp
  ultimately have "last t = newline" using e(1) by simp
  moreover have "last t \<in> set t" using \<open>t \<noteq> []\<close> by simp
  ultimately show False using t(2) hex_not_newline by blast
qed

lemma tail_at_iff:
  assumes t: "length t = 32" "\<forall>c\<in>set t. is_hex c"
  shows "tail_at (x @ t) \<longleftrightarrow> x \<noteq> [] \<and> (\<forall>c\<in>set x. is_space c)"
proof
  assume r: "x \<noteq> [] \<and> (\<forall>c\<in>set x. is_space c)"
  have "t \<noteq> []" using t(1) by auto
  then obtain c cs where tc: "t = c # cs" by (cases t) auto
  have nc: "\<not> is_space c" using t(2) tc hex_not_space by simp
  have "takeWhile is_space (x @ t) = x" using r tc nc by (simp add: takeWhile_append2)
  moreover have "dropWhile is_space (x @ t) = t" using r tc nc by (simp add: dropWhile_append2)
  ultimately show "tail_at (x @ t)" using r t by (simp add: tail_at_def token_at_self)
next
  assume a: "tail_at (x @ t)"
  let ?tw = "takeWhile is_space (x @ t)" and ?dw = "dropWhile is_space (x @ t)"
  have split: "?tw @ ?dw = x @ t" by simp
  have tok: "token_at ?dw" and ne: "?tw \<noteq> []" using a by (simp_all add: tail_at_def)
  obtain t' e where e: "?dw = t' @ e" "length t' = 32" "e = [] \<or> e = [newline]"
    using token_atD[OF tok] by blast
  have "t \<noteq> []" using t(1) by auto
  have "e = []"
  proof (rule ccontr)
    assume "e \<noteq> []"
    then have en: "e = [newline]" using e(3) by simp
    have "last (?tw @ ?dw) = newline" using e(1) en by simp
    then have "last (x @ t) = newline" using split by simp
    then have "last t = newline" using \<open>t \<noteq> []\<close> by simp
    moreover have "last t \<in> set t" using \<open>t \<noteq> []\<close> by simp
    ultimately show False using t(2) hex_not_newline by blast
  qed
  then have "length ?dw = length t" using e t(1) by simp
  then have "(?tw @ ?dw = x @ t) = (?tw = x \<and> ?dw = t)"
    by (intro append_eq_append_conv disjI2)
  then have "?tw = x" using split by blast
  then have "\<forall>c\<in>set x. is_space c" by (metis set_takeWhileD)
  moreover have "x \<noteq> []" using ne \<open>?tw = x\<close> by simp
  ultimately show "x \<noteq> [] \<and> (\<forall>c\<in>set x. is_space c)" by simp
qed

lemma lazy_group_prefix:
  assumes t: "length t = 32" "\<forall>c\<in>set t. is_hex c" and w: "w \<noteq> []" "\<forall>c\<in>set w. is_space c"
  shows "b \<noteq> [] \<Longrightarrow> newline \<notin> set b \<Longrightarrow>
    \<exists>g ws. lazy_group a (b @ w @ t) = Some (a @ g) \<and> b = g @ ws \<and> g \<noteq> []
           \<and> (\<forall>c\<in>set ws. is_space c)"
proof (induction b arbitrary: a)
  case Nil
  then show ?case by simp
next
  case (Cons c cs)
  have cn: "c \<noteq> newline" and csn: "newline \<notin> set cs" using Cons.prems(2) by auto
  have ta: "tail_at (cs @ w @ t) \<longleftrightarrow> (\<forall>c\<in>set cs. is_space c)"
    using tail_at_iff[OF t, of "cs @ w"] w by auto
  show ?case
  proof (cases "\<forall>c\<in>set cs. is_space c")
    case True
    then have "lazy_group a ((c # cs) @ w @ t) = Some (a @ [c])" using cn ta by simp
    then show ?thesis using True by (intro exI[of _ "[c]"] exI[of _ cs]) simp
  next
    case False
    then have ne: "cs \<noteq> []" by auto
    obtain g ws where g: "lazy_group (a @ [c]) (cs @ w @ t) = Some ((a @ [c]) @ g)"
      "cs = g @ ws" "g \<noteq> []" "\<forall>c\<in>set ws. is_space c"
      using Cons.IH[OF ne csn, of "a @ [c]"] by blast
    have "lazy_group a ((c # cs) @ w @ t) = Some (a @ (c # g))" using cn ta False g(1) by simp
    moreover have "c # cs = (c # g) @ ws" using g(2) by simp
    ultimately show ?thesis using g(4) by (intro exI[of _ "c # g"] exI[of _ ws]) simp
  qed
qed

lemma rstrip_append_space: "\<forall>c\<in>set ws. is_space c \<Longrightarrow> rstrip (x @ ws) = rstrip x"
proof -
  assume ws: "\<forall>c\<in>set ws. is_space c"
  have "dropWhile is_space (rev ws @ rev x) = dropWhile is_space (rev x)"
    by (rule dropWhile_append2) (use ws in auto)
  then show ?thesis by (simp add: rstrip_def)
qed

lemma lstrip_append_space:
  "\<forall>c\<in>set ws. is_space c \<Longrightarrow>
   lstrip (g @ ws) = (if \<forall>c\<in>set g. is_space c then [] else lstrip g @ ws)"
  by (auto simp: lstrip_def dropWhile_append)

lemma strip_append_space: "\<forall>c\<in>set ws. is_space c \<Longrightarrow> strip (g @ ws) = strip g"
proof -
  assume ws: "\<forall>c\<in>set ws. is_space c"
  show ?thesis
  proof (cases "\<forall>c\<in>set g. is_space c")
    case True
    then have "lstrip g = []" by (simp add: lstrip_def)
    then show ?thesis using True ws by (simp add: strip_def lstrip_append_space rstrip_def)
  next
    case False
    then show ?thesis using ws by (auto simp: strip_def lstrip_append_space rstrip_append_space)
  qed
qed


lemma ends_with_token_append:
  "length t = 32 \<Longrightarrow> \<forall>c\<in>set t. is_hex c \<Longrightarrow> ends_with_token (u @ t)"
  by (simp add: ends_with_token_def)

lemma token_at_suffix:
  assumes "token_at x"
  shows "token_before_end (u @ x)"
proof -
  obtain t e where e: "x = t @ e" "length t = 32" "\<forall>c\<in>set t. is_hex c" "e = [] \<or> e = [newline]"
    using token_atD[OF assms] by blast
  show ?thesis
  proof (cases "e = []")
    case True
    then show ?thesis using e ends_with_token_append[of t u] by (simp add: token_before_end_def)
  next
    case False
    then have en: "e = [newline]" using e(4) by simp
    have "butlast (u @ x) = u @ t" using e(1) en by (simp add: butlast_append)
    moreover have "last (u @ x) = newline" using e(1) en by simp
    ultimately show ?thesis using e(2,3) ends_with_token_append[of t u]
      by (simp add: token_before_end_def e(1) en)
  qed
qed

lemma tail_at_token:
  assumes "tail_at x"
  shows "\<exists>v y. x = v @ y \<and> v \<noteq> [] \<and> (\<forall>c\<in>set v. is_space c) \<and> token_at y"
proof -
  have "x = takeWhile is_space x @ dropWhile is_space x" by simp
  moreover have "\<forall>c\<in>set (takeWhile is_space x). is_space c" by (meson set_takeWhileD)
  ultimately show ?thesis using assms unfolding tail_at_def by blast
qed

lemma lazy_group_suffix:
  "lazy_group a s = Some g \<Longrightarrow> \<exists>u x. s = u @ x \<and> u \<noteq> [] \<and> tail_at x"
proof (induction s arbitrary: a)
  case Nil
  then show ?case by simp
next
  case (Cons c cs)
  show ?case
  proof (cases "tail_at cs")
    case True
    then show ?thesis by (intro exI[of _ "[c]"] exI[of _ cs]) simp
  next
    case False
    then have "lazy_group (a @ [c]) cs = Some g" using Cons.prems by (simp split: if_splits)
    then obtain u x where "cs = u @ x" "tail_at x" using Cons.IH by blast
    then show ?thesis by (intro exI[of _ "c # u"] exI[of _ x]) simp
  qed
qed

lemma search_token_suffix:
  "search_token s = Some t \<Longrightarrow> \<exists>u x. s = u @ x \<and> token_at x"
proof (induction s)
  case Nil
  then show ?case by simp
next
  case (Cons c cs)
  show ?case
  proof (cases "token_at (c # cs)")
    case True
    then show ?thesis by (intro exI[of _ "[]"] exI[of _ "c # cs"]) simp
  next
    case False
    then have "search_token cs = Some t" using Cons.prems by simp
    then obtain u x where "cs = u @ x" "token_at x" using Cons.IH by blast
    then show ?thesis by (intro exI[of _ "c # u"] exI[of _ x]) simp
  qed
qed

lemma no_token_no_match:
  assumes "\<not> token_before_end s"
  shows "lazy_group a s = None" and "search_token s = None"
proof -
  show "lazy_group a s = None"
  proof (cases "lazy_group a s")
    case (Some g)
    then obtain u x where ux: "s = u @ x" "tail_at x" using lazy_group_suffix by blast
    then obtain v y where "x = v @ y" "token_at y" using tail_at_token by blast
    then have "token_before_end ((u @ v) @ y)" using token_at_suffix by blast
    then show ?thesis using assms ux(1) \<open>x = v @ y\<close> by simp
  qed simp
  show "search_token s = None"
  proof (cases "search_token s")
    case (Some t)
    then obtain u x where "s = u @ x" "token_at x" using search_token_suffix by blast
    then show ?thesis using assms token_at_suffix by blast
  qed simp
qed

lemma search_token_found:
  assumes t: "length t = 32" "\<forall>c\<in>set t. is_hex c"
  shows "search_token (u @ t) = Some t"
proof (induction u)
  case Nil
  obtain c cs where tc: "t = c # cs" using t(1) by (cases t) auto
  have "token_at (c # cs)" using token_at_self[OF t] tc by simp
  then have "search_token (c # cs) = Some (take 32 (c # cs))" by simp
  then show ?case using tc t(1) by simp
next
  case (Cons c u)
  have "\<not> token_at ((c # u) @ t)" using no_early_token[OF t, of "c # u"] by simp
  then show ?case using Cons.IH by simp
qed

lemma lazy_group_needs_space:
  assumes t: "length t = 32" "\<forall>c\<in>set t. is_hex c" and u: "u = [] \<or> \<not> is_space (last u)"
  shows "lazy_group a (u @ t) = None"
proof (cases "lazy_group a (u @ t)")
  case (Some g)
  then obtain u' x where ux: "u @ t = u' @ x" "u' \<noteq> []" "tail_at x"
    using lazy_group_suffix by blast
  from ux(1) obtain us where "u = u' @ us \<and> us @ t = x \<or> u @ us = u' \<and> t = us @ x"
    unfolding append_eq_append_conv2 by blast
  then show ?thesis
  proof
    assume a: "u = u' @ us \<and> us @ t = x"
    then have "tail_at (us @ t)" using ux(3) by simp
    then have "us \<noteq> [] \<and> (\<forall>c\<in>set us. is_space c)" using tail_at_iff[OF t, of us] by simp
    then have "u \<noteq> [] \<and> is_space (last u)" using a by simp
    then show ?thesis using u by simp
  next
    assume a: "u @ us = u' \<and> t = us @ x"
    obtain v y where v: "x = v @ y" "v \<noteq> []" "\<forall>c\<in>set v. is_space c"
      using tail_at_token[OF ux(3)] by blast
    then have "hd v \<in> set t" using a by (cases v) auto
    moreover have "is_space (hd v)" using v(2,3) by (cases v) auto
    ultimately show ?thesis using t(2) hex_not_space by blast
  qed
qed simp


text \<open>
  C6, as stated, fails. The name \<open>x0123456789abcdef0123456789abcdef\<close> does not end with
  white space followed by a token, and the name extraction leaves it whole; but the ID
  extraction looks for 32 hexadecimal characters at the end without asking for white
  space before them, and returns the token, not an ID synthesized from the name.
\<close>

theorem token_without_space_counterexample:
  "\<not> has_id_suffix (''x'' @ hex_token)
   \<and> extract_name_from_filename (''x'' @ hex_token) = ''x'' @ hex_token
   \<and> extract_id_from_filename (''x'' @ hex_token) = hex_token
   \<and> extract_id_from_filename (''x'' @ hex_token) \<noteq> synthesized_id (''x'' @ hex_token)"
proof -
  have t: "length hex_token = 32" "\<forall>c\<in>set hex_token. is_hex c"
    by (simp_all add: hex_token_def is_hex_def)
  have 1: "\<not> has_id_suffix (''x'' @ hex_token)"
    by (simp add: has_id_suffix_def t is_space_def)
  have 2: "extract_name_from_filename (''x'' @ hex_token) = ''x'' @ hex_token"
    using lazy_group_needs_space[OF t, of "''x''" "[]"]
    by (simp add: extract_name_from_filename_def is_space_def)
  have 3: "extract_id_from_filename (''x'' @ hex_token) = hex_token"
    using search_token_found[OF t, of "''x''"] by (simp add: extract_id_from_filename_def)
  have "length (synthesized_id (''x'' @ hex_token)) = 33" by (simp add: synthesized_id_def t)
  then have 4: "hex_token \<noteq> synthesized_id (''x'' @ hex_token)" using t(1) by auto
  show ?thesis using 1 2 3 4 by simp
qed

text \<open>
  C6, amended. (1) A name made of a non-empty part without line feed, a run of white space
  and a token of 32 characters \<open>[a-f0-9]\<close> gives that part, stripped, as the name and the
  token as the ID. (2) A name that does not end with a token (nor with a token and one
  final line feed) is returned whole, with the ID synthesized from it in lower case with
  underscores for blanks; so a token anywhere but at the end changes nothing. (3) A token
  at the end is always the ID, also without white space before it, where the name is
  returned whole.
\<close>

theorem extract_name_and_id:
  "(p \<noteq> [] \<and> newline \<notin> set p \<and> w \<noteq> [] \<and> (\<forall>c\<in>set w. is_space c)
      \<and> length t = 32 \<and> (\<forall>c\<in>set t. is_hex c) \<longrightarrow>
        extract_name_from_filename (p @ w @ t) = strip p
      \<and> extract_id_from_filename (p @ w @ t) = t)
   \<and> (\<not> token_before_end s \<longrightarrow>
        extract_name_from_filename s = s \<and> extract_id_from_filename s = synthesized_id s)
   \<and> (length t = 32 \<and> (\<forall>c\<in>set t. is_hex c) \<longrightarrow>
        extract_id_from_filename (u @ t) = t
      \<and> (u = [] \<or> \<not> is_space (last u) \<longrightarrow> extract_name_from_filename (u @ t) = u @ t))"
proof (intro conjI impI)
  assume a: "p \<noteq> [] \<and> newline \<notin> set p \<and> w \<noteq> [] \<and> (\<forall>c\<in>set w. is_space c)
      \<and> length t = 32 \<and> (\<forall>c\<in>set t. is_hex c)"
  then have t: "length t = 32" "\<forall>c\<in>set t. is_hex c" and w: "w \<noteq> []" "\<forall>c\<in>set w. is_space c"
    and p: "p \<noteq> []" "newline \<notin> set p" by simp_all
  obtain g ws where g: "lazy_group [] (p @ w @ t) = Some ([] @ g)" "p = g @ ws"
    "\<forall>c\<in>set ws. is_space c"
    using lazy_group_prefix[OF t w p, of "[]"] by blast
  have "strip g = strip p" using strip_append_space[OF g(3), of g] g(2) by simp
  then show "extract_name_from_filename (p @ w @ t) = strip p"
    using g(1) by (simp add: extract_name_from_filename_def)
  show "extract_id_from_filename (p @ w @ t) = t"
    using search_token_found[OF t, of "p @ w"] by (simp add: extract_id_from_filename_def)
next
  assume "\<not> token_before_end s"
  then have n: "lazy_group [] s = None" "search_token s = None" by (rule no_token_no_match)+
  show "extract_name_from_filename s = s" using n by (simp add: extract_name_from_filename_def)
  show "extract_id_from_filename s = synthesized_id s"
    using n by (simp add: extract_id_from_filename_def)
next
  assume "length t = 32 \<and> (\<forall>c\<in>set t. is_hex c)"
  then have t: "length t = 32" "\<forall>c\<in>set t. is_hex c" by simp_all
  show "extract_id_from_filename (u @ t) = t"
    using search_token_found[OF t, of u] by (simp add: extract_id_from_filename_def)
next
  assume "length t = 32 \<and> (\<forall>c\<in>set t. is_hex c)" and u: "u = [] \<or> \<not> is_space (last u)"
  then have t: "length t = 32" "\<forall>c\<in>set t. is_hex c" by simp_all
  show "extract_name_from_filename (u @ t) = u @ t"
    using lazy_group_needs_space[OF t u, of "[]"] by (simp add: extract_name_from_filename_def)
qed

theorem extract_name_and_id_witness:
  "''Page Name'' \<noteq> [] \<and> newline \<notin> set ''Page Name'' \<and> list_all is_space '' ''
   \<and> length hex_token = 32 \<and> list_all is_hex hex_token
   \<and> extract_name_from_filename (''Page Name '' @ hex_token) = ''Page Name''
   \<and> extract_id_from_filename (''Page Name '' @ hex_token) = hex_token
   \<and> \<not> token_before_end ''Page Name''
   \<and> extract_name_from_filename ''Page Name'' = ''Page Name''
   \<and> extract_id_from_filename ''Page Name'' = ''page_name''"
proof -
  have h: "''Page Name'' \<noteq> [] \<and> newline \<notin> set ''Page Name'' \<and> '' '' \<noteq> []
      \<and> (\<forall>c\<in>set '' ''. is_space c) \<and> length hex_token = 32 \<and> (\<forall>c\<in>set hex_token. is_hex c)"
    by (simp add: newline_def is_space_def hex_token_def is_hex_def)
  have n: "\<not> token_before_end ''Page Name''"
    by (simp add: token_before_end_def ends_with_token_def newline_def)
  have s: "strip ''Page Name'' = ''Page Name''"
    by (simp add: strip_def lstrip_def rstrip_def is_space_def)
  have y: "synthesized_id ''Page Name'' = ''page_name''"
    by (simp add: synthesized_id_def lower_char_def)
  note th = extract_name_and_id [of "''Page Name''" "'' ''" hex_token "''Page Name''" "[]"]
  have a: "extract_name_from_filename (''Page Name'' @ '' '' @ hex_token) = strip ''Page Name''
      \<and> extract_id_from_filename (''Page Name'' @ '' '' @ hex_token) = hex_token"
    using th [THEN conjunct1] h by blast
  have b: "extract_name_from_filename ''Page Name'' = ''Page Name''
      \<and> extract_id_from_filename ''Page Name'' = synthesized_id ''Page Name''"
    using th [THEN conjunct2, THEN conjunct1] n by blast
  show ?thesis using h n a b s y by (simp add: list_all_iff)
qed

section \<open>Properties from the body of a page\<close>

declare scan_properties.simps [simp del]

lemma match_property_Nil: "match_property [] = None"
  by (simp add: match_property_def)

lemma scan_skip:
  assumes "i < min (s + 20) (length lines)" and "match_property (strip (lines ! i)) = None"
  shows "scan_properties lines s i s props = scan_properties lines s (Suc i) s props"
  using assms by (subst scan_properties.simps) (simp add: Let_def)

lemma scan_capture:
  assumes "i < min (s + 20) (length lines)" and "match_property (strip (lines ! i)) \<noteq> None"
  shows "scan_properties lines s i pend props =
         scan_properties lines s (Suc i) (Suc i) (capture props (lines ! i))"
proof -
  obtain k v where kv: "match_property (strip (lines ! i)) = Some (k, v)" using assms(2) by auto
  then have "strip (lines ! i) \<noteq> []" using match_property_Nil by auto
  then show ?thesis using assms(1) kv
    by (subst scan_properties.simps) (simp add: Let_def capture_def)
qed

lemma scan_stop:
  assumes "i < min (s + 20) (length lines)" and "match_property (strip (lines ! i)) = None"
    and "s < pend"
  shows "scan_properties lines s i pend props =
         (if strip (lines ! i) = [] then Suc i else pend, props)"
  using assms by (subst scan_properties.simps) (simp add: Let_def)

lemma scan_end:
  assumes "\<not> i < min (s + 20) (length lines)"
  shows "scan_properties lines s i pend props = (pend, props)"
  using assms by (subst scan_properties.simps) auto

lemma scan_before_block:
  "\<forall>l\<in>set pre. match_property (strip l) = None \<Longrightarrow> length seen + length pre \<le> s + 20 \<Longrightarrow>
   scan_properties (seen @ pre @ later) s (length seen) s props =
   scan_properties (seen @ pre @ later) s (length seen + length pre) s props"
proof (induction pre arbitrary: seen)
  case Nil
  then show ?case by simp
next
  case (Cons l pre)
  have 1: "length seen < min (s + 20) (length (seen @ (l # pre) @ later))" using Cons.prems(2) by simp
  have 2: "(seen @ (l # pre) @ later) ! length seen = l" by simp
  have 3: "match_property (strip l) = None" using Cons.prems(1) by simp
  have "scan_properties (seen @ (l # pre) @ later) s (length seen) s props =
        scan_properties (seen @ (l # pre) @ later) s (Suc (length seen)) s props"
    using scan_skip[OF 1] 2 3 by simp
  also have "\<dots> = scan_properties ((seen @ [l]) @ pre @ later) s (length (seen @ [l])) s props"
    by simp
  also have "\<dots> = scan_properties ((seen @ [l]) @ pre @ later) s (length (seen @ [l]) + length pre) s props"
    using Cons.prems by (intro Cons.IH) simp_all
  finally show ?case by simp
qed

lemma scan_block:
  "\<forall>l\<in>set block. match_property (strip l) \<noteq> None \<Longrightarrow> length seen + length block \<le> s + 20 \<Longrightarrow>
   scan_properties (seen @ block @ later) s (length seen) pend props =
   scan_properties (seen @ block @ later) s (length seen + length block)
     (if block = [] then pend else length seen + length block) (foldl capture props block)"
proof (induction block arbitrary: seen pend props)
  case Nil
  then show ?case by simp
next
  case (Cons l block)
  have 1: "length seen < min (s + 20) (length (seen @ (l # block) @ later))" using Cons.prems(2) by simp
  have 2: "(seen @ (l # block) @ later) ! length seen = l" by simp
  have 3: "match_property (strip l) \<noteq> None" using Cons.prems(1) by simp
  have "scan_properties (seen @ (l # block) @ later) s (length seen) pend props =
        scan_properties (seen @ (l # block) @ later) s (Suc (length seen)) (Suc (length seen))
          (capture props l)"
    using scan_capture[OF 1] 2 3 by simp
  also have "\<dots> = scan_properties ((seen @ [l]) @ block @ later) s (length (seen @ [l]))
          (length (seen @ [l])) (capture props l)"
    by simp
  also have "\<dots> = scan_properties ((seen @ [l]) @ block @ later) s (length (seen @ [l]) + length block)
          (if block = [] then length (seen @ [l]) else length (seen @ [l]) + length block)
          (foldl capture (capture props l) block)"
    using Cons.prems by (intro Cons.IH) simp_all
  finally show ?case by simp
qed


lemma strip_Nil_iff: "strip l = [] \<longleftrightarrow> (\<forall>c\<in>set l. is_space c)"
proof
  assume "strip l = []"
  then have a: "\<forall>c\<in>set (dropWhile is_space l). is_space c"
    by (simp add: strip_def rstrip_def lstrip_def dropWhile_eq_Nil_conv)
  show "\<forall>c\<in>set l. is_space c"
  proof (cases "dropWhile is_space l")
    case Nil
    then show ?thesis by (simp add: dropWhile_eq_Nil_conv)
  next
    case (Cons c cs)
    then have "dropWhile is_space l \<noteq> []" by simp
    then have "\<not> is_space (hd (dropWhile is_space l))" by (rule hd_dropWhile)
    then show ?thesis using a Cons by simp
  qed
next
  assume "\<forall>c\<in>set l. is_space c"
  then have "dropWhile is_space l = []" by (induction l) simp_all
  then show "strip l = []" unfolding strip_def rstrip_def lstrip_def by (simp only: rev.simps dropWhile.simps)
qed

lemma strip_space_prepend: "\<forall>c\<in>set w. is_space c \<Longrightarrow> strip (w @ y) = strip y"
proof -
  assume w: "\<forall>c\<in>set w. is_space c"
  have "dropWhile is_space (w @ y) = dropWhile is_space y"
    by (rule dropWhile_append2) (use w in auto)
  then show ?thesis by (simp add: strip_def lstrip_def)
qed

lemma strip_join_blank:
  assumes "strip l = []"
  shows "strip (join [newline] (l # ls)) = strip (join [newline] ls)"
proof (cases ls)
  case Nil
  then show ?thesis using assms by (simp add: strip_def rstrip_def lstrip_def)
next
  case (Cons x xs)
  have "\<forall>c\<in>set (l @ [newline]). is_space c"
    using assms by (auto simp: strip_Nil_iff is_space_def newline_def)
  then have "strip ((l @ [newline]) @ join [newline] (x # xs)) = strip (join [newline] (x # xs))"
    by (rule strip_space_prepend)
  then show ?thesis using Cons by simp
qed

lemma scan_result:
  assumes pre: "\<forall>l\<in>set pre. match_property (strip l) = None"
    and block: "block \<noteq> []" "\<forall>l\<in>set block. match_property (strip l) \<noteq> None"
    and win: "length (pre @ block) \<le> 20"
    and post: "post = [] \<or> length (pre @ block) = 20 \<or> match_property (strip (hd post)) = None"
    and seen: "length seen = s"
  shows "\<exists>pend. scan_properties (seen @ pre @ block @ post) s s s props
           = (pend, foldl capture props block)
         \<and> strip (join [newline] (drop pend (seen @ pre @ block @ post)))
           = strip (join [newline] post)"
proof -
  let ?L = "seen @ pre @ block @ post" and ?b = "length seen + length pre + length block"
  let ?props = "foldl capture props block"
  have "scan_properties ?L s s s props = scan_properties ?L s (length seen + length pre) s props"
    using scan_before_block[OF pre, of seen s "block @ post" props] win seen by simp
  also have "\<dots> = scan_properties ((seen @ pre) @ block @ post) s (length (seen @ pre)) s props"
    by simp
  also have "\<dots> = scan_properties ((seen @ pre) @ block @ post) s
       (length (seen @ pre) + length block)
       (if block = [] then s else length (seen @ pre) + length block) ?props"
    using win seen by (intro scan_block[OF block(2)]) simp
  finally have run: "scan_properties ?L s s s props = scan_properties ?L s ?b ?b ?props"
    using block(1) by simp
  have dropb: "drop ?b ?L = post" by simp
  have sb: "s < ?b" using block(1) seen by (cases block) simp_all
  show ?thesis
  proof (cases "?b < min (s + 20) (length ?L)")
    case False
    then have "scan_properties ?L s ?b ?b ?props = (?b, ?props)" by (rule scan_end)
    then show ?thesis using run dropb by (intro exI[of _ ?b]) simp
  next
    case True
    then have "post \<noteq> []" "length (pre @ block) \<noteq> 20" using seen by auto
    then obtain l post' where l: "post = l # post'" "match_property (strip l) = None"
      using post by (cases post) auto
    have nth: "?L ! ?b = l" using l(1) by (simp add: nth_append)
    have res: "scan_properties ?L s ?b ?b ?props = (if strip l = [] then Suc ?b else ?b, ?props)"
      using scan_stop[OF True _ sb, of ?props] nth l(2) by simp
    show ?thesis
    proof (cases "strip l = []")
      case True
      have "drop (Suc ?b) ?L = post'" using l(1) by simp
      moreover have "strip (join [newline] post') = strip (join [newline] post)"
        using strip_join_blank[OF True, of post'] l(1) by simp
      ultimately show ?thesis using run res True by (intro exI[of _ "Suc ?b"]) simp
    next
      case False
      then show ?thesis using run res dropb by (intro exI[of _ ?b]) simp
    qed
  qed
qed

lemma scan_nothing:
  assumes "\<forall>l\<in>set (take 20 lines'). match_property (strip l) = None" and "length seen = s"
  shows "scan_properties (seen @ lines') s s s props = (s, props)"
proof -
  let ?L = "seen @ take 20 lines' @ drop 20 lines'"
  have "scan_properties ?L s (length seen) s props
      = scan_properties ?L s (length seen + length (take 20 lines')) s props"
    using assms by (intro scan_before_block) simp_all
  moreover have "\<not> length seen + length (take 20 lines') < min (s + 20) (length ?L)"
    using assms(2) by (simp add: min_def)
  ultimately show ?thesis using scan_end[of "length seen + length (take 20 lines')" s ?L s props]
    assms(2) by simp
qed


lemma extract_properties_scan:
  "extract_properties r =
     r\<lparr>properties := snd (scan_properties (split_nl (content r))
            (content_start (split_nl (content r))) (content_start (split_nl (content r)))
            (content_start (split_nl (content r))) (properties r)),
       content := strip (join [newline]
          (drop (fst (scan_properties (split_nl (content r))
            (content_start (split_nl (content r))) (content_start (split_nl (content r)))
            (content_start (split_nl (content r))) (properties r)))
           (split_nl (content r))))\<rparr>"
  by (simp add: extract_properties_def content_start_def Let_def case_prod_beta)

lemma content_start_le: "content_start lines \<le> length lines"
  by (cases lines) (auto simp: content_start_def Let_def)

lemma content_start_title:
  assumes "starts_with ''# '' (strip title)"
  shows "drop (content_start (title # rest)) (title # rest) = after_title rest"
  using assms by (cases rest) (auto simp: content_start_def after_title_def Let_def)

lemma strip_join_after_title:
  "strip (join [newline] (after_title rest)) = strip (join [newline] rest)"
  by (cases rest) (simp_all add: after_title_def strip_join_blank)

lemma extract_properties_captured:
  assumes at: "drop (content_start (split_nl (content r))) (split_nl (content r))
               = pre @ block @ post"
    and pre: "\<forall>l\<in>set pre. match_property (strip l) = None"
    and block: "block \<noteq> []" "\<forall>l\<in>set block. match_property (strip l) \<noteq> None"
    and win: "length (pre @ block) \<le> 20"
    and post: "post = [] \<or> length (pre @ block) = 20 \<or> match_property (strip (hd post)) = None"
  shows "properties (extract_properties r) = foldl capture (properties r) block"
    and "content (extract_properties r) = strip (join [newline] post)"
proof -
  let ?lines = "split_nl (content r)"
  let ?s = "content_start ?lines"
  let ?seen = "take ?s ?lines"
  have len: "length ?seen = ?s" using content_start_le[of ?lines] by simp
  have L: "?lines = ?seen @ pre @ block @ post" using at by (metis append_take_drop_id)
  obtain pend where pend:
    "scan_properties (?seen @ pre @ block @ post) ?s ?s ?s (properties r)
       = (pend, foldl capture (properties r) block)"
    "strip (join [newline] (drop pend (?seen @ pre @ block @ post))) = strip (join [newline] post)"
    using scan_result[OF pre block win post len, of "properties r"] by blast
  have sc: "scan_properties ?lines ?s ?s ?s (properties r)
       = (pend, foldl capture (properties r) block)"
    using pend(1) L by simp
  have dr: "strip (join [newline] (drop pend ?lines)) = strip (join [newline] post)"
    using pend(2) L by simp
  show "properties (extract_properties r) = foldl capture (properties r) block"
    by (subst extract_properties_scan) (simp add: sc)
  show "content (extract_properties r) = strip (join [newline] post)"
    by (subst extract_properties_scan) (simp add: sc dr)
qed

lemma extract_properties_none:
  assumes "\<forall>l\<in>set (take 20 (drop (content_start (split_nl (content r))) (split_nl (content r)))).
             match_property (strip l) = None"
  shows "properties (extract_properties r) = properties r"
    and "content (extract_properties r) = strip (join [newline]
           (drop (content_start (split_nl (content r))) (split_nl (content r))))"
proof -
  let ?lines = "split_nl (content r)"
  let ?s = "content_start ?lines"
  have len: "length (take ?s ?lines) = ?s" using content_start_le[of ?lines] by simp
  have "scan_properties (take ?s ?lines @ drop ?s ?lines) ?s ?s ?s (properties r)
      = (?s, properties r)"
    using scan_nothing[OF assms len, of "properties r"] .
  then have sc: "scan_properties ?lines ?s ?s ?s (properties r) = (?s, properties r)" by simp
  show "properties (extract_properties r) = properties r"
    by (subst extract_properties_scan) (simp add: sc)
  show "content (extract_properties r) = strip (join [newline] (drop ?s ?lines))"
    by (subst extract_properties_scan) (simp add: sc)
qed

lemma match_property_key:
  assumes "match_property l = Some (key, v)"
  shows "\<exists>c k. key = c # k \<and> is_upper c \<and> k \<noteq> [] \<and> (\<forall>x\<in>set k. key_char x)"
proof -
  obtain c cs where l: "l = c # cs" using assms by (cases l) (simp_all add: match_property_def)
  have u: "is_upper c" and k: "takeWhile key_char cs \<noteq> []"
    using assms l by (simp_all add: match_property_def split: if_splits)
  have "key = c # takeWhile key_char cs"
    using assms l by (auto simp: match_property_def split: if_splits list.splits)
  moreover have "\<forall>x\<in>set (takeWhile key_char cs). key_char x" by (meson set_takeWhileD)
  ultimately show ?thesis using u k by blast
qed

lemmas text_eval = titled_body_def late_title_body_def intro_body_def page_def Resource_def
  newline_def is_space_def strip_def lstrip_def rstrip_def starts_with_def content_start_def
  after_title_def capture_def match_property_def is_upper_def key_char_def dot_plus_end_def
  at_end_def Let_def

text \<open>
  C7, as stated, fails. The heading is looked for on the first line only: in a body that
  starts with a blank line, the first non-blank line is the heading, and without
  property lines the heading stays in the content.
\<close>

theorem late_title_counterexample:
  "content (extract_properties (page late_title_body)) = ''# Title'' @ [newline, newline] @ ''Body text''
   \<and> properties (extract_properties (page late_title_body)) = []"
proof -
  have l: "split_nl (content (page late_title_body)) = [[], ''# Title'', [], ''Body text'']"
    by (simp add: text_eval)
  have s: "content_start [[], ''# Title'', [], ''Body text''] = 1"
    by (simp add: text_eval)
  have n: "\<forall>l\<in>set (take 20 (drop (content_start (split_nl (content (page late_title_body))))
              (split_nl (content (page late_title_body))))). match_property (strip l) = None"
    unfolding l s by (simp add: text_eval)
  show ?thesis
    using extract_properties_none[OF n] unfolding l s by (simp add: text_eval)
qed

text \<open>
  C7, amended: for every page body whose first line is a level-1 heading. The lines after
  the heading (and after the blank line that may follow it) are scanned, 20 of them at
  most. When they are some lines that do not match \<open>Key: value\<close> (blank or not), then a
  block of one or more lines that match, and then the end of the body, the end of the 20
  lines or a line that does not match, the properties of the block are recorded in order
  and the content is what follows the block, stripped. When none of the 20 lines matches,
  the properties stay as they are and the content is what follows the heading, stripped.
  A key starts with an upper case letter, followed by at least one letter or white space
  character.
\<close>

theorem extract_properties_block:
  assumes "split_nl (content r) = title # rest" and "starts_with ''# '' (strip title)"
  shows "(after_title rest = pre @ block @ post
          \<and> (\<forall>l\<in>set pre. match_property (strip l) = None)
          \<and> block \<noteq> [] \<and> (\<forall>l\<in>set block. match_property (strip l) \<noteq> None)
          \<and> length (pre @ block) \<le> 20
          \<and> (post = [] \<or> length (pre @ block) = 20 \<or> match_property (strip (hd post)) = None)
          \<longrightarrow> properties (extract_properties r) = foldl capture (properties r) block
            \<and> content (extract_properties r) = strip (join [newline] post))
       \<and> ((\<forall>l\<in>set (take 20 (after_title rest)). match_property (strip l) = None)
          \<longrightarrow> properties (extract_properties r) = properties r
            \<and> content (extract_properties r) = strip (join [newline] rest))
       \<and> (\<forall>l key v. match_property l = Some (key, v) \<longrightarrow>
            (\<exists>c k. key = c # k \<and> is_upper c \<and> k \<noteq> [] \<and> (\<forall>x\<in>set k. key_char x)))"
proof -
  have d: "drop (content_start (split_nl (content r))) (split_nl (content r)) = after_title rest"
    using content_start_title[OF assms(2), of rest] assms(1) by simp
  have 1: "properties (extract_properties r) = foldl capture (properties r) block
            \<and> content (extract_properties r) = strip (join [newline] post)"
    if "after_title rest = pre @ block @ post
          \<and> (\<forall>l\<in>set pre. match_property (strip l) = None)
          \<and> block \<noteq> [] \<and> (\<forall>l\<in>set block. match_property (strip l) \<noteq> None)
          \<and> length (pre @ block) \<le> 20
          \<and> (post = [] \<or> length (pre @ block) = 20 \<or> match_property (strip (hd post)) = None)"
  proof -
    have a: "drop (content_start (split_nl (content r))) (split_nl (content r)) = pre @ block @ post"
      using d that by simp
    show ?thesis using extract_properties_captured[OF a] that by simp
  qed
  have 2: "properties (extract_properties r) = properties r
            \<and> content (extract_properties r) = strip (join [newline] rest)"
    if n: "\<forall>l\<in>set (take 20 (after_title rest)). match_property (strip l) = None"
  proof -
    have a: "\<forall>l\<in>set (take 20 (drop (content_start (split_nl (content r))) (split_nl (content r)))).
             match_property (strip l) = None" using n d by simp
    show ?thesis using extract_properties_none[OF a] d strip_join_after_title[of rest] by simp
  qed
  have 3: "\<forall>l key v. match_property l = Some (key, v) \<longrightarrow>
            (\<exists>c k. key = c # k \<and> is_upper c \<and> k \<noteq> [] \<and> (\<forall>x\<in>set k. key_char x))"
    using match_property_key by blast
  show ?thesis using 1 2 3 by (intro conjI impI) simp_all
qed

theorem extract_properties_block_witness:
  "split_nl (content (page titled_body))
     = ''# Title'' # [[], ''Owner: Alice'', ''Status: Active'', [], ''Body text'']
   \<and> starts_with ''# '' (strip ''# Title'')
   \<and> after_title [[], ''Owner: Alice'', ''Status: Active'', [], ''Body text'']
       = [] @ [''Owner: Alice'', ''Status: Active''] @ [[], ''Body text'']
   \<and> match_property (strip ''Owner: Alice'') \<noteq> None
   \<and> match_property (strip ''Status: Active'') \<noteq> None
   \<and> match_property (strip []) = None
   \<and> properties (extract_properties (page titled_body))
       = [(''Owner'', ''Alice''), (''Status'', ''Active'')]
   \<and> content (extract_properties (page titled_body)) = ''Body text''"
proof -
  have l: "split_nl (content (page titled_body))
     = ''# Title'' # [[], ''Owner: Alice'', ''Status: Active'', [], ''Body text'']"
    by (simp add: text_eval)
  have t: "starts_with ''# '' (strip ''# Title'')" by (simp add: text_eval)
  have a: "after_title [[], ''Owner: Alice'', ''Status: Active'', [], ''Body text'']
       = [] @ [''Owner: Alice'', ''Status: Active''] @ [[], ''Body text'']"
    by (simp add: text_eval)
  have m1: "match_property (strip ''Owner: Alice'') = Some (''Owner'', ''Alice'')"
    by (simp add: text_eval)
  have m2: "match_property (strip ''Status: Active'') = Some (''Status'', ''Active'')"
    by (simp add: text_eval)
  have m3: "match_property (strip []) = None" by (simp add: text_eval)
  have p: "properties (page titled_body) = []" by (simp add: page_def Resource_def)
  have f: "foldl capture [] [''Owner: Alice'', ''Status: Active'']
       = [(''Owner'', ''Alice''), (''Status'', ''Active'')]"
    by (simp add: capture_def m1 m2) (simp add: text_eval)
  have s: "strip (join [newline] [[], ''Body text'']) = ''Body text''" by (simp add: text_eval)
  note th = extract_properties_block [OF l t, of "[]" "[''Owner: Alice'', ''Status: Active'']"
      "[[], ''Body text'']", THEN conjunct1]
  have "properties (extract_properties (page titled_body))
          = foldl capture (properties (page titled_body)) [''Owner: Alice'', ''Status: Active'']
      \<and> content (extract_properties (page titled_body)) = strip (join [newline] [[], ''Body text''])"
    by (rule th [THEN mp]) (simp add: a m1 m2 m3)
  then show ?thesis using l t a m1 m2 m3 p f s by simp
qed

text \<open>
  C10: whatever the body starts with, the scan begins at \<open>content_start_idx\<close>; when the
  lines from there on are some lines that do not match, at least one of them not blank,
  then a block of lines that match (all within the 20 lines of the window), then the end
  of the body, the end of the window or a line that does not match, the content that
  is kept is what follows the block (the line that ends the block left out when it is
  blank): the lines before the first property line are not in it.
\<close>

theorem lines_before_properties_removed:
  assumes "drop (content_start (split_nl (content r))) (split_nl (content r)) = pre @ block @ post"
    and "\<forall>l\<in>set pre. match_property (strip l) = None" and "\<exists>l\<in>set pre. strip l \<noteq> []"
    and "block \<noteq> []" and "\<forall>l\<in>set block. match_property (strip l) \<noteq> None"
    and "length (pre @ block) \<le> 20"
    and "post = [] \<or> length (pre @ block) = 20 \<or> match_property (strip (hd post)) = None"
  shows "content (extract_properties r) = strip (join [newline] post)
       \<and> properties (extract_properties r) = foldl capture (properties r) block"
  using extract_properties_captured[OF assms(1,2,4,5,6,7)] by simp

theorem lines_before_properties_removed_witness:
  "drop (content_start (split_nl (content (page intro_body)))) (split_nl (content (page intro_body)))
     = [''Intro line''] @ [''Owner: Alice''] @ [[], ''Body text'']
   \<and> match_property (strip ''Intro line'') = None \<and> strip ''Intro line'' \<noteq> []
   \<and> match_property (strip ''Owner: Alice'') \<noteq> None
   \<and> match_property (strip []) = None
   \<and> content (extract_properties (page intro_body)) = ''Body text''"
proof -
  have l: "drop (content_start (split_nl (content (page intro_body))))
      (split_nl (content (page intro_body)))
     = [''Intro line''] @ [''Owner: Alice''] @ [[], ''Body text'']"
    by (simp add: text_eval)
  have m0: "match_property (strip ''Intro line'') = None" by (simp add: text_eval)
  have s0: "strip ''Intro line'' \<noteq> []" by (simp add: text_eval)
  have m1: "match_property (strip ''Owner: Alice'') \<noteq> None" by (simp add: text_eval)
  have m3: "match_property (strip []) = None" by (simp add: text_eval)
  have s: "strip (join [newline] [[], ''Body text'']) = ''Body text''" by (simp add: text_eval)
  have "content (extract_properties (page intro_body)) = strip (join [newline] [[], ''Body text''])"
    using lines_before_properties_removed [OF l, THEN conjunct1] m0 s0 m1 m3 by simp
  then show ?thesis using l m0 s0 m1 m3 s by simp
qed

section \<open>Serializing what was parsed\<close>

subsection \<open>Lines and blanks\<close>

lemma split_nl_not_Nil: "split_nl s \<noteq> []"
  by (induction s) (auto split: list.splits)

lemma split_nl_line: "newline \<notin> set l \<Longrightarrow> split_nl (l @ newline # s) = l # split_nl s"
  by (induction l) (auto split: list.splits)

lemma split_nl_blank_lines: "split_nl (replicate k newline @ s) = replicate k [] @ split_nl s"
  by (induction k) simp_all

lemma split_nl_no_newline: "l \<in> set (split_nl s) \<Longrightarrow> newline \<notin> set l"
proof (induction s arbitrary: l)
  case Nil
  then show ?case by simp
next
  case (Cons c s)
  show ?case
  proof (cases "c = newline")
    case True
    then show ?thesis using Cons by auto
  next
    case False
    obtain x xs where x: "split_nl s = x # xs" using split_nl_not_Nil[of s] by (cases "split_nl s") auto
    then have "l = c # x \<or> l \<in> set xs" using Cons.prems False by simp
    then show ?thesis using Cons.IH[of x] Cons.IH[of l] x False by auto
  qed
qed

lemma lstrip_nonspace: "\<not> is_space c \<Longrightarrow> lstrip (c # t) = c # t"
  by (simp add: lstrip_def)

lemma strip_Nil: "strip [] = []"
  by (simp add: strip_def lstrip_def rstrip_def)

lemma rstrip_nonspace: "x \<noteq> [] \<Longrightarrow> \<not> is_space (last x) \<Longrightarrow> rstrip x = x"
proof -
  assume a: "x \<noteq> []" "\<not> is_space (last x)"
  then obtain ys y where x: "x = ys @ [y]" by (cases x rule: rev_cases) auto
  then have "\<not> is_space y" using a(2) by simp
  then show ?thesis using x by (simp add: rstrip_def)
qed

lemma rstrip_Nil_or_last: "rstrip x = [] \<or> \<not> is_space (last (rstrip x))"
proof (cases "dropWhile is_space (rev x)")
  case Nil
  then show ?thesis by (simp add: rstrip_def)
next
  case (Cons c cs)
  then have "dropWhile is_space (rev x) \<noteq> []" by simp
  then have "\<not> is_space (hd (dropWhile is_space (rev x)))" by (rule hd_dropWhile)
  then show ?thesis using Cons by (simp add: rstrip_def)
qed

lemma lstrip_Nil_or_hd: "lstrip x = [] \<or> \<not> is_space (hd (lstrip x))"
  using hd_dropWhile[of is_space x] by (auto simp: lstrip_def)

lemma rstrip_hd: "rstrip x \<noteq> [] \<Longrightarrow> hd (rstrip x) = hd x"
proof -
  have "\<exists>ws. x = rstrip x @ ws"
    unfolding rstrip_def
    by (metis rev_append rev_rev_ident takeWhile_dropWhile_id)
  then obtain ws where "x = rstrip x @ ws" by blast
  moreover assume "rstrip x \<noteq> []"
  ultimately show ?thesis by (metis hd_append2)
qed

lemma strip_shape: "strip x = [] \<or> (\<not> is_space (hd (strip x)) \<and> \<not> is_space (last (strip x)))"
proof (cases "strip x = []")
  case False
  then have r: "rstrip (lstrip x) \<noteq> []" by (simp add: strip_def)
  then have "lstrip x \<noteq> []" by (auto simp: rstrip_def)
  then have "\<not> is_space (hd (lstrip x))" using lstrip_Nil_or_hd[of x] by simp
  then have "\<not> is_space (hd (strip x))" using rstrip_hd[OF r] by (simp add: strip_def)
  moreover have "\<not> is_space (last (strip x))"
    using rstrip_Nil_or_last[of "lstrip x"] r by (simp add: strip_def)
  ultimately show ?thesis by simp
qed simp

lemma strip_id: "x \<noteq> [] \<Longrightarrow> \<not> is_space (hd x) \<Longrightarrow> \<not> is_space (last x) \<Longrightarrow> strip x = x"
proof -
  assume a: "x \<noteq> []" "\<not> is_space (hd x)" "\<not> is_space (last x)"
  then have "lstrip x = x" by (cases x) (simp_all add: lstrip_def)
  then show ?thesis using a by (simp add: strip_def rstrip_nonspace)
qed

lemma strip_strip: "strip (strip x) = strip x"
proof (cases "strip x = []")
  case True
  then show ?thesis by (simp add: strip_Nil)
next
  case False
  then show ?thesis using strip_shape[of x] by (intro strip_id) simp_all
qed

lemma match_src_shape:
  "match_src x = Some s \<Longrightarrow>
   (\<exists>y. x = s @ CHR '')'' # y) \<and> newline \<notin> set s \<and> CHR '')'' \<notin> set s"
proof (induction x arbitrary: s)
  case Nil
  then show ?case by simp
next
  case (Cons c cs)
  show ?case
  proof (cases "c = CHR '')''")
    case True
    then show ?thesis using Cons.prems by auto
  next
    case False
    then have n: "c \<noteq> newline" using Cons.prems by (auto split: if_splits)
    then obtain s' where s': "match_src cs = Some s'" "s = c # s'"
      using Cons.prems False by auto
    show ?thesis using Cons.IH[OF s'(1)] s'(2) False n by auto
  qed
qed

lemma match_src_found:
  "newline \<notin> set u \<Longrightarrow> match_src (u @ CHR '')'' # y) \<noteq> None"
  by (induction u) auto

lemma match_src_again:
  "newline \<notin> set s \<Longrightarrow> CHR '')'' \<notin> set s \<Longrightarrow> match_src (s @ CHR '')'' # y) = Some s"
  by (induction s) auto

lemma match_alt_shape:
  "match_alt x = Some (a, s) \<Longrightarrow>
   (\<exists>y. x = a @ '']('' @ s @ CHR '')'' # y) \<and> newline \<notin> set a \<and> newline \<notin> set s
     \<and> CHR '')'' \<notin> set s"
proof (induction x arbitrary: a)
  case Nil
  then show ?case by simp
next
  case (Cons c cs)
  show ?case
  proof (cases "if starts_with '']('' (c # cs) then match_src (drop 2 (c # cs)) else None")
    case (Some s')
    then have st: "starts_with '']('' (c # cs)" and ms: "match_src (drop 2 (c # cs)) = Some s'"
      by (auto split: if_splits)
    have as: "a = []" "s = s'" using Cons.prems Some by simp_all
    have "c # cs = '']('' @ drop 2 (c # cs)"
      using st by (metis append_take_drop_id length_Cons list.size(3) numeral_2_eq_2 starts_with_def)
    then show ?thesis using match_src_shape[OF ms] as by auto
  next
    case None
    then have n: "c \<noteq> newline" using Cons.prems by (auto split: if_splits)
    then obtain a' where a': "match_alt cs = Some (a', s)" "a = c # a'"
      using Cons.prems None by auto
    show ?thesis using Cons.IH[OF a'(1)] a'(2) n by auto
  qed
qed

lemma match_alt_again:
  "match_alt x = Some (a, s) \<Longrightarrow> match_alt (a @ '']('' @ s @ '')'') = Some (a, s)"
proof (induction x arbitrary: a)
  case Nil
  then show ?case by simp
next
  case (Cons c cs)
  show ?case
  proof (cases "if starts_with '']('' (c # cs) then match_src (drop 2 (c # cs)) else None")
    case (Some s')
    then have ms: "match_src (drop 2 (c # cs)) = Some s'" by (auto split: if_splits)
    have as: "a = []" "s = s'" using Cons.prems Some by simp_all
    have "match_src (s @ '')'') = Some s"
      using match_src_shape[OF ms] as match_src_again[of s "[]"] by simp
    then show ?thesis using as by (simp add: starts_with_def)
  next
    case None
    then have n: "c \<noteq> newline" using Cons.prems by (auto split: if_splits)
    then obtain a' where a': "match_alt cs = Some (a', s)" "a = c # a'"
      using Cons.prems None by auto
    obtain y where y: "cs = a' @ '']('' @ s @ CHR '')'' # y" and na: "newline \<notin> set a'"
      and ns: "newline \<notin> set s"
      using match_alt_shape[OF a'(1)] by blast
    let ?w = "a' @ '']('' @ s @ '')''"
    have IH: "match_alt ?w = Some (a', s)" using Cons.IH[OF a'(1)] .
    have inner: "(if starts_with '']('' (c # ?w) then match_src (drop 2 (c # ?w)) else None) = None"
    proof (cases "starts_with '']('' (c # ?w)")
      case False
      then show ?thesis by simp
    next
      case True
      then have c: "c = CHR '']''" by (simp add: starts_with_def)
      have "a' \<noteq> []" using True c by (cases a') (auto simp: starts_with_def)
      then obtain b a'' where b: "a' = b # a''" by (cases a') auto
      then have "b = CHR ''(''" using True by (simp add: starts_with_def)
      then have "starts_with '']('' (c # cs)" using y b c by (simp add: starts_with_def)
      then have "match_src (drop 2 (c # cs)) = None" using None by simp
      moreover have "drop 2 (c # cs) = (a'' @ '']('' @ s) @ CHR '')'' # y" using y b by simp
      moreover have "newline \<notin> set (a'' @ '']('' @ s)" using na ns b by (auto simp: newline_def)
      ultimately show ?thesis using match_src_found[of "a'' @ '']('' @ s" y] by simp
    qed
    have "match_alt (c # ?w) = Some (c # a', s)"
      using inner n IH by (simp del: append.simps)
    then show ?thesis using a'(2) by simp
  qed
qed

lemma process_text_node: "process_node (text_node t) = Inr t"
  by (simp add: text_node_def)

lemma ser_paragraph: "process_node (paragraph_node t) = Inr (t @ [newline, newline])"
  by (simp add: paragraph_node_def process_text_node)

lemma ser_heading:
  "process_node (heading_node lv t) = Inr (replicate (nat lv) CHR ''#'' @ '' '' @ t @ [newline])"
  by (simp add: heading_node_def process_text_node)

lemma ser_rule: "process_node rule_node = Inr (''---'' @ [newline])"
  by (simp add: rule_node_def)

lemma ser_bullet: "process_node (bullet_node t) = Inr (''- '' @ t @ [newline, newline, newline])"
  by (simp add: bullet_node_def ser_paragraph)

lemma ser_blockquote:
  "process_node (blockquote_node t) = Inr (''> '' @ t @ [newline, newline, newline])"
  by (simp add: blockquote_node_def ser_paragraph)

lemma parse_blank: "strip l = [] \<Longrightarrow> parse_lines (l # rest) = parse_lines rest"
  by simp

lemma parse_heading:
  "strip l \<noteq> [] \<Longrightarrow> starts_with ''#'' l \<Longrightarrow>
   parse_lines (l # rest) =
     heading_node (min (int (length l - length (lstrip_hash l))) 6) (strip (lstrip_hash l))
       # parse_lines rest"
  by (simp add: Let_def)

lemma parse_rule:
  "strip l \<noteq> [] \<Longrightarrow> \<not> starts_with ''#'' l \<Longrightarrow> is_rule (strip l) \<Longrightarrow>
   parse_lines (l # rest) = rule_node # parse_lines rest"
  by simp

lemma parse_bullet:
  "strip l \<noteq> [] \<Longrightarrow> \<not> starts_with ''#'' l \<Longrightarrow> \<not> is_rule (strip l) \<Longrightarrow>
   starts_bullet (strip l) \<Longrightarrow>
   parse_lines (l # rest) = bullet_node (strip (drop 1 (strip l))) # parse_lines rest"
  by simp

lemma parse_blockquote:
  "strip l \<noteq> [] \<Longrightarrow> \<not> starts_with ''#'' l \<Longrightarrow> \<not> is_rule (strip l) \<Longrightarrow>
   \<not> starts_bullet (strip l) \<Longrightarrow> starts_with ''>'' (strip l) \<Longrightarrow>
   parse_lines (l # rest) = blockquote_node (strip (drop 1 (strip l))) # parse_lines rest"
  by simp

lemma parse_image:
  "strip l \<noteq> [] \<Longrightarrow> \<not> starts_with ''#'' l \<Longrightarrow> \<not> is_rule (strip l) \<Longrightarrow>
   \<not> starts_bullet (strip l) \<Longrightarrow> \<not> starts_with ''>'' (strip l) \<Longrightarrow>
   starts_with ''!['' (strip l) \<Longrightarrow>
   parse_lines (l # rest) =
     (case image_match (strip l) of
        Some (a, s) \<Rightarrow> paragraph_node (''!['' @ a @ '']('' @ s @ '')'') # parse_lines rest
      | None \<Rightarrow> parse_lines rest)"
  by simp

lemma parse_paragraph:
  "strip l \<noteq> [] \<Longrightarrow> \<not> starts_with ''#'' l \<Longrightarrow> \<not> is_rule (strip l) \<Longrightarrow>
   \<not> starts_bullet (strip l) \<Longrightarrow> \<not> starts_with ''>'' (strip l) \<Longrightarrow>
   \<not> starts_with ''!['' (strip l) \<Longrightarrow>
   parse_lines (l # rest) =
     paragraph_node (join '' '' (l # takeWhile continues rest))
       # parse_lines (dropWhile continues rest)"
  by simp

declare parse_lines.simps(2) [simp del]

lemma parse_blank_lines: "parse_lines (replicate k [] @ rest) = parse_lines rest"
  by (induction k) (simp_all add: parse_blank strip_Nil)

lemma starts_with_char: "starts_with [c] s \<longleftrightarrow> s \<noteq> [] \<and> hd s = c"
  by (cases s) (auto simp: starts_with_def)

lemma not_blank: "c \<in> set l \<Longrightarrow> \<not> is_space c \<Longrightarrow> strip l \<noteq> []"
  using strip_Nil_iff by blast

lemma stripped_cases:
  assumes "strip t = t"
  shows "t = [] \<or> (\<not> is_space (hd t) \<and> \<not> is_space (last t))"
  using strip_shape[of t] assms by simp

lemma strip_marker:
  assumes "strip t = t" and "\<not> is_space c"
  shows "strip (c # CHR '' '' # t) = (if t = [] then [c] else c # CHR '' '' # t)"
proof (cases "t = []")
  case True
  then show ?thesis using assms(2) by (simp add: strip_def lstrip_def rstrip_def is_space_def)
next
  case False
  then have "\<not> is_space (last t)" using stripped_cases[OF assms(1)] by simp
  then have "strip (c # CHR '' '' # t) = c # CHR '' '' # t"
    using assms(2) False by (intro strip_id) simp_all
  then show ?thesis using False by simp
qed

lemma strip_after_marker:
  assumes "strip t = t" and "\<not> is_space c"
  shows "strip (drop 1 (strip (c # CHR '' '' # t))) = t"
proof (cases "t = []")
  case True
  then show ?thesis using strip_marker[OF assms] by (simp add: strip_Nil)
next
  case False
  have "strip ('' '' @ t) = strip t" by (rule strip_space_prepend) (simp add: is_space_def)
  then show ?thesis using strip_marker[OF assms] False assms(1) by simp
qed

lemma rb_rule: "reads_back rule_node"
proof -
  have s: "strip ''---'' = ''---''" by (simp add: strip_def lstrip_def rstrip_def is_space_def)
  have "parse_lines (''---'' # replicate 0 [] @ rest) = rule_node # parse_lines rest" for rest
    using parse_rule[of "''---''" rest] s by (simp add: starts_with_def is_rule_def)
  then show ?thesis
    unfolding reads_back_def
    by (intro exI[of _ "''---''"] exI[of _ 0]) (simp add: ser_rule newline_def)
qed

lemma rb_heading:
  assumes lv: "1 \<le> lv" "lv \<le> 6" and t: "strip t = t" "newline \<notin> set t"
  shows "reads_back (heading_node lv t)"
proof -
  let ?n = "nat lv"
  let ?l = "replicate ?n CHR ''#'' @ '' '' @ t"
  obtain m where m: "?n = Suc m" using lv(1) by (cases ?n) auto
  have ne: "strip ?l \<noteq> []" by (rule not_blank[of "CHR ''#''"]) (simp_all add: m is_space_def)
  have sw: "starts_with ''#'' ?l" by (simp add: m starts_with_def)
  have lh: "lstrip_hash ?l = '' '' @ t"
    unfolding lstrip_hash_def by (subst dropWhile_append2) simp_all
  have lev: "min (int (length ?l - length (lstrip_hash ?l))) 6 = lv"
    unfolding lh using lv by simp
  have tx: "strip (lstrip_hash ?l) = t"
    unfolding lh using strip_space_prepend[of "'' ''" t] t(1) by (simp add: is_space_def)
  have "parse_lines (?l # replicate 0 [] @ rest) = heading_node lv t # parse_lines rest" for rest
    using parse_heading[OF ne sw, of rest] lev tx by simp
  moreover have "newline \<notin> set ?l" using t(2) by (simp add: newline_def)
  moreover have "process_node (heading_node lv t) = Inr (?l @ newline # replicate 0 newline)"
    by (simp add: ser_heading)
  ultimately show ?thesis unfolding reads_back_def by blast
qed

lemma rb_bullet:
  assumes t: "strip t = t" "newline \<notin> set t"
  shows "reads_back (bullet_node t)"
proof -
  let ?l = "''- '' @ t"
  have ns: "\<not> is_space CHR ''-''" by (simp add: is_space_def)
  have sm: "strip ?l = (if t = [] then ''-'' else ?l)" using strip_marker[OF t(1) ns] by simp
  have ne: "strip ?l \<noteq> []" using sm by simp
  have nh: "\<not> starts_with ''#'' ?l" by (simp add: starts_with_def)
  have nr: "\<not> is_rule (strip ?l)" using sm by (simp add: is_rule_def)
  have sb: "starts_bullet (strip ?l)" using sm by (simp add: starts_bullet_def starts_with_def)
  have tx: "strip (drop 1 (strip ?l)) = t" using strip_after_marker[OF t(1) ns] by simp
  have "parse_lines (?l # replicate 2 [] @ rest) = bullet_node t # parse_lines rest" for rest
    using parse_bullet[OF ne nh nr sb, of "replicate 2 [] @ rest"] tx
      parse_blank_lines[of 2 rest] by simp
  moreover have "newline \<notin> set ?l" using t(2) by (simp add: newline_def)
  moreover have "process_node (bullet_node t) = Inr (?l @ newline # replicate 2 newline)"
    by (simp add: ser_bullet numeral_2_eq_2)
  ultimately show ?thesis unfolding reads_back_def by blast
qed

lemma rb_blockquote:
  assumes t: "strip t = t" "newline \<notin> set t"
  shows "reads_back (blockquote_node t)"
proof -
  let ?l = "''> '' @ t"
  have ns: "\<not> is_space CHR ''>''" by (simp add: is_space_def)
  have sm: "strip ?l = (if t = [] then ''>'' else ?l)" using strip_marker[OF t(1) ns] by simp
  have ne: "strip ?l \<noteq> []" using sm by simp
  have nh: "\<not> starts_with ''#'' ?l" by (simp add: starts_with_def)
  have nr: "\<not> is_rule (strip ?l)" using sm by (simp add: is_rule_def)
  have nb: "\<not> starts_bullet (strip ?l)" using sm by (simp add: starts_bullet_def starts_with_def)
  have sq: "starts_with ''>'' (strip ?l)" using sm by (simp add: starts_with_def)
  have tx: "strip (drop 1 (strip ?l)) = t" using strip_after_marker[OF t(1) ns] by simp
  have "parse_lines (?l # replicate 2 [] @ rest) = blockquote_node t # parse_lines rest" for rest
    using parse_blockquote[OF ne nh nr nb sq, of "replicate 2 [] @ rest"] tx
      parse_blank_lines[of 2 rest] by simp
  moreover have "newline \<notin> set ?l" using t(2) by (simp add: newline_def)
  moreover have "process_node (blockquote_node t) = Inr (?l @ newline # replicate 2 newline)"
    by (simp add: ser_blockquote numeral_2_eq_2)
  ultimately show ?thesis unfolding reads_back_def by blast
qed

lemma rb_paragraph:
  assumes "newline \<notin> set p" and "strip p \<noteq> []" and "\<not> starts_with ''#'' p"
    and "\<not> is_rule (strip p)" and "\<not> starts_bullet (strip p)"
    and "\<not> starts_with ''>'' (strip p)" and "\<not> starts_with ''!['' (strip p)"
  shows "reads_back (paragraph_node p)"
proof -
  have c: "\<not> continues []" by (simp add: continues_def strip_Nil)
  have "parse_lines (p # replicate 1 [] @ rest) = paragraph_node p # parse_lines rest" for rest
    using parse_paragraph[OF assms(2-7), of "[] # rest"] c parse_blank[of "[]" rest]
    by (simp add: strip_Nil)
  moreover have "process_node (paragraph_node p) = Inr (p @ newline # replicate 1 newline)"
    by (simp add: ser_paragraph)
  ultimately show ?thesis using assms(1) unfolding reads_back_def by blast
qed

lemma rb_image:
  assumes "match_alt x = Some (a, s)"
  shows "reads_back (paragraph_node (''!['' @ a @ '']('' @ s @ '')''))"
proof -
  let ?p = "''!['' @ a @ '']('' @ s @ '')''"
  have nl: "newline \<notin> set ?p" using match_alt_shape[OF assms] by (auto simp: newline_def)
  have sp: "strip ?p = ?p" by (intro strip_id) (simp_all add: is_space_def)
  have im: "image_match ?p = Some (a, s)"
    using match_alt_again[OF assms] by (simp add: image_match_def starts_with_def)
  have c: "\<not> continues []" by (simp add: continues_def strip_Nil)
  have "parse_lines (?p # rest) = paragraph_node ?p # parse_lines rest" for rest
    using parse_image[of ?p rest] im unfolding sp
    by (simp add: starts_with_def is_rule_def starts_bullet_def)
  then have "parse_lines (?p # replicate 1 [] @ rest) = paragraph_node ?p # parse_lines rest" for rest
    using parse_blank[of "[]" rest] by (simp add: strip_Nil)
  moreover have "process_node (paragraph_node ?p) = Inr (?p @ newline # replicate 1 newline)"
    by (simp add: ser_paragraph)
  ultimately show ?thesis using nl unfolding reads_back_def by blast
qed

lemma set_strip: "set (strip x) \<subseteq> set x"
proof -
  have "set (rstrip y) \<subseteq> set y" for y
    using set_dropWhileD[of _ is_space "rev y"] by (auto simp: rstrip_def)
  moreover have "set (lstrip x) \<subseteq> set x"
    using set_dropWhileD[of _ is_space x] by (auto simp: lstrip_def)
  ultimately show ?thesis unfolding strip_def by blast
qed

lemma strip_decomp:
  "\<exists>a b. l = a @ strip l @ b \<and> (\<forall>c\<in>set a. is_space c) \<and> (\<forall>c\<in>set b. is_space c)"
proof -
  let ?a = "takeWhile is_space l"
  let ?b = "rev (takeWhile is_space (rev (lstrip l)))"
  have 1: "l = ?a @ lstrip l" by (simp add: lstrip_def)
  have "lstrip l =
      rev (takeWhile is_space (rev (lstrip l)) @ dropWhile is_space (rev (lstrip l)))"
    by (simp only: takeWhile_dropWhile_id rev_rev_ident)
  then have 2: "lstrip l = strip l @ ?b"
    unfolding strip_def rstrip_def by (simp only: rev_append)
  have a: "\<forall>c\<in>set ?a. is_space c" using set_takeWhileD[of _ is_space l] by blast
  have b: "\<forall>c\<in>set ?b. is_space c"
    using set_takeWhileD[of _ is_space "rev (lstrip l)"] by auto
  have "l = ?a @ strip l @ ?b" using 1 2 by simp
  then show ?thesis using a b by blast
qed

lemma rstrip_after_nonspace:
  assumes "s \<noteq> []" and "\<not> is_space (last s)"
  shows "rstrip (s @ w) = s @ rstrip w"
proof -
  have h: "\<not> is_space (hd (rev s))" using assms by (simp add: hd_rev)
  have d: "dropWhile is_space (rev s) = rev s"
    using assms(1) h by (cases "rev s") simp_all
  show ?thesis
  proof (cases "\<forall>c\<in>set (rev w). is_space c")
    case True
    have "dropWhile is_space (rev w @ rev s) = dropWhile is_space (rev s)"
      by (rule dropWhile_append2) (use True in blast)
    moreover have "dropWhile is_space (rev w) = []" using True by simp
    ultimately show ?thesis using d by (simp add: rstrip_def)
  next
    case False
    then obtain x where x: "x \<in> set (rev w)" "\<not> is_space x" by blast
    have "dropWhile is_space (rev w @ rev s) = dropWhile is_space (rev w) @ rev s"
      using x by (rule dropWhile_append1)
    then show ?thesis by (simp add: rstrip_def)
  qed
qed

lemma strip_first_line:
  assumes "strip l \<noteq> []" and "z = [] \<or> is_space (hd z)"
  shows "\<exists>y. strip (l @ z) = strip l @ y \<and> (y = [] \<or> is_space (hd y))"
proof -
  obtain a b where l: "l = a @ strip l @ b" and a: "\<forall>c\<in>set a. is_space c"
    and b: "\<forall>c\<in>set b. is_space c"
    using strip_decomp[of l] by blast
  have sh: "\<not> is_space (hd (strip l))" "\<not> is_space (last (strip l))"
    using strip_shape[of l] assms(1) by simp_all
  have "strip (l @ z) = strip ((a @ strip l @ b) @ z)"
    using arg_cong[OF l, of "\<lambda>x. strip (x @ z)"] .
  also have "\<dots> = strip (a @ (strip l @ b @ z))" by (simp only: append_assoc)
  also have "\<dots> = strip (strip l @ b @ z)" by (rule strip_space_prepend[OF a])
  also have "\<dots> = rstrip (strip l @ b @ z)"
    using assms(1) sh(1) by (cases "strip l") (simp_all add: strip_def lstrip_def)
  also have "\<dots> = strip l @ rstrip (b @ z)"
    using rstrip_after_nonspace[OF assms(1) sh(2)] by simp
  finally have e: "strip (l @ z) = strip l @ rstrip (b @ z)" .
  have "rstrip (b @ z) = [] \<or> is_space (hd (rstrip (b @ z)))"
  proof (cases "rstrip (b @ z) = []")
    case False
    then have h: "hd (rstrip (b @ z)) = hd (b @ z)" by (rule rstrip_hd)
    have ne: "b @ z \<noteq> []" using False by (auto simp: rstrip_def)
    have "is_space (hd (b @ z))"
    proof (cases b)
      case Nil
      then show ?thesis using ne assms(2) by simp
    next
      case (Cons c cs)
      then show ?thesis using b by simp
    qed
    then show ?thesis using h by simp
  qed simp
  then show ?thesis using e by blast
qed

lemma join_first: "\<exists>z. join '' '' (l # ms) = l @ z \<and> (z = [] \<or> is_space (hd z))"
  by (cases ms) (simp_all add: is_space_def)

lemma join_no_newline:
  "\<forall>l\<in>set ls. newline \<notin> set l \<Longrightarrow> newline \<notin> set (join '' '' ls)"
  by (induction "'' ''" ls rule: join.induct) (simp_all add: newline_def)

lemma not_starts_with_append:
  assumes "\<not> starts_with p s" and "y = [] \<or> hd y \<notin> set p"
  shows "\<not> starts_with p (s @ y)"
proof
  assume sw: "starts_with p (s @ y)"
  then have t: "take (length p) s @ take (length p - length s) y = p"
    by (simp add: starts_with_def)
  show False
  proof (cases "take (length p - length s) y = []")
    case True
    with t have "take (length p) s = p" by (simp only: append_Nil2)
    then show ?thesis using assms(1) by (simp add: starts_with_def)
  next
    case False
    then have y: "y \<noteq> []" by auto
    have "hd (take (length p - length s) y) = hd y" using False by (cases y) (auto simp: take_Cons')
    moreover have "hd (take (length p - length s) y) \<in> set (take (length p - length s) y)"
      using False by (rule hd_in_set)
    ultimately have "hd y \<in> set p" using t by (metis Un_iff set_append)
    then show ?thesis using assms(2) y by simp
  qed
qed

lemma rule_no_space: "is_rule s \<Longrightarrow> c \<in> set s \<Longrightarrow> \<not> is_space c"
  by (auto simp: is_rule_def is_space_def)

lemma rb_plain:
  assumes l: "newline \<notin> set l" and ms: "\<forall>m\<in>set ms. newline \<notin> set m"
    and ne: "strip l \<noteq> []" and nh: "\<not> starts_with ''#'' l" and nr: "\<not> is_rule (strip l)"
    and nb: "\<not> starts_bullet (strip l)" and nq: "\<not> starts_with ''>'' (strip l)"
    and ni: "\<not> starts_with ''!['' (strip l)"
  shows "reads_back (paragraph_node (join '' '' (l # ms)))"
proof -
  let ?p = "join '' '' (l # ms)"
  obtain z where z: "?p = l @ z" "z = [] \<or> is_space (hd z)" using join_first[of l ms] by blast
  obtain y where y: "strip ?p = strip l @ y" "y = [] \<or> is_space (hd y)"
    using strip_first_line[OF ne z(2)] z(1) by auto
  have sp: "\<And>q. \<forall>c\<in>set q. \<not> is_space c \<Longrightarrow> \<not> starts_with q (strip l)
                \<Longrightarrow> \<not> starts_with q (strip ?p)"
    unfolding y(1) using y(2) by (intro not_starts_with_append) auto
  have 1: "newline \<notin> set ?p" using join_no_newline[of "l # ms"] l ms by simp
  have 2: "strip ?p \<noteq> []" using y(1) ne by simp
  have "l \<noteq> []" using ne by (auto simp: strip_Nil)
  then have 3: "\<not> starts_with ''#'' ?p" using nh z(1) by (simp add: starts_with_char)
  have 4: "\<not> is_rule (strip ?p)"
  proof
    assume r: "is_rule (strip ?p)"
    show False
    proof (cases "y = []")
      case True
      then show ?thesis using r nr y(1) by simp
    next
      case False
      then have "hd y \<in> set (strip ?p)" using y(1) by simp
      then show ?thesis using rule_no_space[OF r] y(2) False by blast
    qed
  qed
  have 5: "\<not> starts_bullet (strip ?p)"
    using nb sp[of "''-''"] sp[of "''*''"] sp[of "''+''"]
    by (simp add: starts_bullet_def is_space_def)
  have 6: "\<not> starts_with ''>'' (strip ?p)" using nq sp[of "''>''"] by (simp add: is_space_def)
  have 7: "\<not> starts_with ''!['' (strip ?p)" using ni sp[of "''![''"] by (simp add: is_space_def)
  show ?thesis by (rule rb_paragraph[OF 1 2 3 4 5 6 7])
qed

lemma hash_level: "starts_with ''#'' l \<Longrightarrow> 1 \<le> length l - length (lstrip_hash l)"
proof -
  assume "starts_with ''#'' l"
  then obtain t where t: "l = CHR ''#'' # t" by (cases l) (auto simp: starts_with_def)
  have "length (dropWhile (\<lambda>c. c = CHR ''#'') t) \<le> length t" by (rule length_dropWhile_le)
  then show ?thesis using t by (simp add: lstrip_hash_def)
qed

lemma parse_lines_read_back:
  "\<forall>l\<in>set ls. newline \<notin> set l \<Longrightarrow> n \<in> set (parse_lines ls) \<Longrightarrow> reads_back n"
proof (induction ls arbitrary: n rule: length_induct)
  case (1 ls)
  show ?case
  proof (cases ls)
    case Nil
    then show ?thesis using "1.prems"(2) by simp
  next
    case (Cons l rest)
    have nl: "newline \<notin> set l" and nrest: "\<forall>m\<in>set rest. newline \<notin> set m"
      using "1.prems"(1) Cons by simp_all
    have ih: "reads_back n" if "n \<in> set (parse_lines rest)"
      using "1.IH"[rule_format, of rest n] Cons nrest that by simp
    have ndrop: "\<forall>m\<in>set (dropWhile continues rest). newline \<notin> set m"
      using nrest set_dropWhileD by fast
    have "length (dropWhile continues rest) < length ls"
      using length_dropWhile_le[of continues rest] Cons by simp
    then have ihd: "reads_back n" if "n \<in> set (parse_lines (dropWhile continues rest))"
      using "1.IH"[rule_format, of "dropWhile continues rest" n] ndrop that by blast
    have ntake: "\<forall>m\<in>set (takeWhile continues rest). newline \<notin> set m"
      using nrest set_takeWhileD by fast
    have n: "n \<in> set (parse_lines (l # rest))" using "1.prems"(2) Cons by simp
    consider (blank) "strip l = []"
      | (heading) "strip l \<noteq> []" "starts_with ''#'' l"
      | (rule) "strip l \<noteq> []" "\<not> starts_with ''#'' l" "is_rule (strip l)"
      | (bullet) "strip l \<noteq> []" "\<not> starts_with ''#'' l" "\<not> is_rule (strip l)"
          "starts_bullet (strip l)"
      | (quote) "strip l \<noteq> []" "\<not> starts_with ''#'' l" "\<not> is_rule (strip l)"
          "\<not> starts_bullet (strip l)" "starts_with ''>'' (strip l)"
      | (image) "strip l \<noteq> []" "\<not> starts_with ''#'' l" "\<not> is_rule (strip l)"
          "\<not> starts_bullet (strip l)" "\<not> starts_with ''>'' (strip l)"
          "starts_with ''!['' (strip l)"
      | (plain) "strip l \<noteq> []" "\<not> starts_with ''#'' l" "\<not> is_rule (strip l)"
          "\<not> starts_bullet (strip l)" "\<not> starts_with ''>'' (strip l)"
          "\<not> starts_with ''!['' (strip l)"
      by blast
    then show ?thesis
    proof cases
      case blank
      then show ?thesis using n ih by (simp add: parse_blank)
    next
      case heading
      let ?lv = "min (int (length l - length (lstrip_hash l))) 6"
      let ?t = "strip (lstrip_hash l)"
      have "set ?t \<subseteq> set l"
        using set_strip[of "lstrip_hash l"] set_dropWhileD[of _ "\<lambda>c. c = CHR ''#''" l]
        by (auto simp: lstrip_hash_def)
      then have "newline \<notin> set ?t" using nl by blast
      moreover have "1 \<le> ?lv" "?lv \<le> 6" using hash_level[OF heading(2)] by simp_all
      ultimately have "reads_back (heading_node ?lv ?t)"
        by (intro rb_heading) (simp_all add: strip_strip)
      then show ?thesis using n ih parse_heading[OF heading, of rest] by auto
    next
      case rule
      then show ?thesis using n ih rb_rule parse_rule[OF rule, of rest] by auto
    next
      case bullet
      let ?t = "strip (drop 1 (strip l))"
      have "set ?t \<subseteq> set l"
        using set_strip[of "drop 1 (strip l)"] set_strip[of l] set_drop_subset[of 1 "strip l"]
        by blast
      then have "reads_back (bullet_node ?t)" using nl by (intro rb_bullet strip_strip) blast
      then show ?thesis using n ih parse_bullet[OF bullet, of rest] by auto
    next
      case quote
      let ?t = "strip (drop 1 (strip l))"
      have "set ?t \<subseteq> set l"
        using set_strip[of "drop 1 (strip l)"] set_strip[of l] set_drop_subset[of 1 "strip l"]
        by blast
      then have "reads_back (blockquote_node ?t)" using nl by (intro rb_blockquote strip_strip) blast
      then show ?thesis using n ih parse_blockquote[OF quote, of rest] by auto
    next
      case image
      show ?thesis
      proof (cases "image_match (strip l)")
        case None
        then show ?thesis using n ih parse_image[OF image, of rest] by simp
      next
        case (Some as)
        obtain a s where as: "as = (a, s)" by (cases as)
        have "match_alt (drop 2 (strip l)) = Some (a, s)"
          using Some as by (simp add: image_match_def split: if_splits)
        then have "reads_back (paragraph_node (''!['' @ a @ '']('' @ s @ '')''))" by (rule rb_image)
        then show ?thesis using n ih parse_image[OF image, of rest] Some as by auto
      qed
    next
      case plain
      have "reads_back (paragraph_node (join '' '' (l # takeWhile continues rest)))"
        by (rule rb_plain[OF nl ntake plain])
      then show ?thesis using n ihd parse_paragraph[OF plain, of rest] by auto
    qed
  qed
qed

lemma serialize_read_back:
  "\<forall>n\<in>set ns. reads_back n \<Longrightarrow>
   \<exists>s. process_nodes ns = Inr s \<and> parse_lines (split_nl s) = ns"
proof (induction ns)
  case Nil
  then show ?case by (simp add: parse_blank strip_Nil)
next
  case (Cons n ns)
  then obtain s where s: "process_nodes ns = Inr s" "parse_lines (split_nl s) = ns" by auto
  obtain l k where l: "newline \<notin> set l"
    and p: "process_node n = Inr (l @ newline # replicate k newline)"
    and r: "\<And>rest. parse_lines (l # replicate k [] @ rest) = n # parse_lines rest"
    using Cons.prems unfolding reads_back_def by auto
  let ?s = "(l @ newline # replicate k newline) @ s"
  have "process_nodes (n # ns) = Inr ?s" using p s(1) by simp
  moreover have "split_nl ?s = l # replicate k [] @ split_nl s"
    using split_nl_line[OF l, of "replicate k newline @ s"] split_nl_blank_lines[of k s] by simp
  then have "parse_lines (split_nl ?s) = n # ns" using r s(2) by simp
  ultimately show ?case by blast
qed

text \<open>
  For every text at all, the serializer returns a result on what the parser produced, and the
  parser reads that result as the same node list again.
\<close>

lemma reparse_serialized:
  "\<exists>s. process_nodes (markdown_to_prosemirror text) = Inr s
      \<and> markdown_to_prosemirror s = markdown_to_prosemirror text"
proof -
  have "\<forall>l\<in>set (split_nl text). newline \<notin> set l" using split_nl_no_newline by blast
  then have "\<forall>n\<in>set (parse_lines (split_nl text)). reads_back n"
    using parse_lines_read_back by blast
  then show ?thesis unfolding markdown_to_prosemirror_def by (rule serialize_read_back)
qed

subsection \<open>Lines of a document\<close>






















subsection \<open>What the parser reads from a document\<close>









subsection \<open>What the serializer writes for the nodes of a document\<close>





subsection \<open>The document that is written\<close>














section \<open>What the serializer does with nodes it does not know\<close>

lemma parser_skips_unmatched_image:
  "markdown_to_prosemirror ''![broken'' = []"
  by code_simp

lemma unrecognized_node:
  assumes "ty \<notin> set recognized_types"
  shows "process_node (Node (Some ty) ats co tx mk) =
           (if dget co [] \<noteq> [] then process_nodes (dget co []) else Inr [])"
proof -
  have ne: "ty \<noteq> ''text''" "ty \<noteq> ''paragraph''" "ty \<noteq> ''heading''"
    "ty \<noteq> ''bulletList''" "ty \<noteq> ''orderedList''" "ty \<noteq> ''listItem''"
    "ty \<noteq> ''codeBlock''" "ty \<noteq> ''blockquote''" "ty \<noteq> ''rule''"
    "ty \<noteq> ''mention''" "ty \<noteq> ''image''"
    using assms by (auto simp: recognized_types_def)
  show ?thesis by (simp add: ne Let_def)
qed

lemma unrecognized_node_without_content:
  assumes "ty \<notin> set recognized_types"
  shows "process_node (Node (Some ty) ats None tx mk) = Inr []"
  unfolding unrecognized_node [OF assms] by simp

lemma non_dict_node_skipped: "process_nodes (NonDict # ns) = process_nodes ns"
  by (cases "process_nodes ns") simp_all

text \<open>
  Claim C2. The serializer is not total: \<open>_process_nodes\<close> skips an entry of its node list
  that is not a dictionary, but in the loop over the items of a \<open>bulletList\<close> or an
  \<open>orderedList\<close> it calls \<open>item.get\<close> on every item, and that call raises AttributeError
  on an item that is not a dictionary. The rest of the claim holds: the parser is a total
  function that drops a line it cannot match (lemma \<open>parser_skips_unmatched_image\<close>), and a
  node of a kind without a branch serializes to its children, or to the empty string when it
  has none (lemmas \<open>unrecognized_node\<close> and \<open>unrecognized_node_without_content\<close>).
\<close>

theorem list_item_not_dict_raises:
  "process_nodes [Node (Some ''bulletList'') None (Some [NonDict]) None None]
     = Inl AttributeError"
  by simp

end
